theory Spec2Isabelle
  imports Complex_Main
begin

section \<open>Caption-driven figure extraction (src/utils/pdfUtils.ts)\<close>

text \<open>
  The development embeds \<^verbatim>\<open>extractImagesFromPdf\<close> and its helper \<^verbatim>\<open>mergeLine\<close>.
  In the embedding of the pipeline the JavaScript numbers that carry viewport coordinates
  are read as exact real numbers (finite, no rounding); page numbers are natural numbers.
  Where the rounding of binary64 decides a property, which is the height test of line
  148, lines 126 to 148 are embedded a second time with every sum and difference rounded
  as the machine rounds it. A JavaScript string is the list of its UTF-16 code units,
  each a natural number.
\<close>

subsection \<open>Strings\<close>

type_synonym jsstring = "nat list"

definition lit :: "string \<Rightarrow> jsstring" where
  \<comment> \<open>the code units of an ASCII literal of the source\<close>
  "lit s = map of_char s"

definition isWhitespace :: "nat \<Rightarrow> bool" where
  \<comment> \<open>the class \<^verbatim>\<open>\s\<close> of a regular expression, which is also what \<^verbatim>\<open>trim\<close> strips:
     WhiteSpace and LineTerminator of ECMAScript\<close>
  "isWhitespace c \<longleftrightarrow>
     (9 \<le> c \<and> c \<le> 13) \<or> c = 32 \<or> c = 160 \<or> c = 5760 \<or> (8192 \<le> c \<and> c \<le> 8202) \<or>
     c = 8232 \<or> c = 8233 \<or> c = 8239 \<or> c = 8287 \<or> c = 12288 \<or> c = 65279"

definition isDigit :: "nat \<Rightarrow> bool" where
  \<comment> \<open>the class \<^verbatim>\<open>\d\<close>: the ten ASCII digits\<close>
  "isDigit c \<longleftrightarrow> 48 \<le> c \<and> c \<le> 57"

definition isSep :: "nat \<Rightarrow> bool" where
  \<comment> \<open>the class \<^verbatim>\<open>[\.\s]\<close>\<close>
  "isSep c \<longleftrightarrow> c = 46 \<or> isWhitespace c"

definition canonicalize :: "nat \<Rightarrow> nat" where
  \<comment> \<open>case folding of the flag \<^verbatim>\<open>i\<close> (without \<^verbatim>\<open>u\<close>), as far as it can meet an ASCII
     letter: a code unit of 128 or more never folds to an ASCII one\<close>
  "canonicalize c = (if 97 \<le> c \<and> c \<le> 122 then c - 32 else c)"

fun matchLiteral :: "jsstring \<Rightarrow> jsstring \<Rightarrow> jsstring option" where
  \<comment> \<open>matches a literal of ASCII letters at the start of the text, ignoring case, and
     returns the rest of the text\<close>
  "matchLiteral [] cs = Some cs"
| "matchLiteral (p # ps) [] = None"
| "matchLiteral (p # ps) (c # cs) =
     (if canonicalize c = canonicalize p then matchLiteral ps cs else None)"

definition matchNumber :: "jsstring \<Rightarrow> jsstring option" where
  \<comment> \<open>\<^verbatim>\<open>[\.\s]+(\d+)\<close> at the start of the text: both repetitions are greedy and the two
     classes are disjoint, so the group is the longest run of digits after the longest
     run of separators\<close>
  "matchNumber cs =
     (let seps = takeWhile isSep cs;
          digits = takeWhile isDigit (dropWhile isSep cs)
      in if seps \<noteq> [] \<and> digits \<noteq> [] then Some digits else None)"

definition captionRegex :: "jsstring \<Rightarrow> jsstring option" where
  \<comment> \<open>\<^verbatim>\<open>/^(Figure|Fig)[\.\s]+(\d+)/i\<close>: the second group of the match, None when the
     text does not match. The alternatives are tried in order.\<close>
  "captionRegex txt =
     (case Option.bind (matchLiteral (lit ''Figure'') txt) matchNumber of
        Some digits \<Rightarrow> Some digits
      | None \<Rightarrow> Option.bind (matchLiteral (lit ''Fig'') txt) matchNumber)"

definition figureLabel :: "jsstring \<Rightarrow> jsstring" where
  \<comment> \<open>\<^verbatim>\<open>`Figure ${match[2]}`\<close>\<close>
  "figureLabel digits = lit ''Figure '' @ digits"

subsection \<open>Glyph runs and lines\<close>

text \<open>
  The fields of \<^verbatim>\<open>TextItemPosition\<close> carry the prefix \<open>i_\<close>, those of the object that
  \<^verbatim>\<open>mergeLine\<close> returns the prefix \<open>l_\<close>, those of \<^verbatim>\<open>ExtractedImage\<close> the prefix
  \<open>img_\<close>.
\<close>

record TextItemPosition =
  i_str :: jsstring
  i_x :: real
  i_y :: real
  i_bottom :: real
  i_width :: real
  i_height :: real
  i_right :: real

record Line =
  l_text :: jsstring
  l_x :: real
  l_y :: real
  l_bottom :: real
  l_height :: real

datatype error =
  TypeError     \<comment> \<open>reading a property of \<^verbatim>\<open>undefined\<close>\<close>
| LoadError     \<comment> \<open>\<^verbatim>\<open>file.arrayBuffer\<close> or \<^verbatim>\<open>getDocument\<close> rejects\<close>
| TextError     \<comment> \<open>\<^verbatim>\<open>pdf.getPage\<close> or \<^verbatim>\<open>page.getTextContent\<close> rejects, or step 1 throws\<close>
| RenderError   \<comment> \<open>\<^verbatim>\<open>page.render\<close> rejects\<close>
| CropError     \<comment> \<open>drawing on or encoding the crop canvas throws\<close>

fun mergeText :: "jsstring \<Rightarrow> TextItemPosition \<Rightarrow> TextItemPosition list \<Rightarrow> jsstring" where
  \<comment> \<open>the loop of \<^verbatim>\<open>mergeLine\<close> from index 1 on: the text so far, the previous run, the
     runs still to come\<close>
  "mergeText txt prev [] = txt"
| "mergeText txt prev (cur # rest) =
     (let gap = i_x cur - i_right prev;
          txt1 = (if gap > 5 then txt @ lit '' '' else txt)
      in mergeText (txt1 @ i_str cur) cur rest)"

definition mergeLine :: "TextItemPosition list \<Rightarrow> error + Line" where
  \<comment> \<open>\<^verbatim>\<open>items.sort((a,b) => a.x - b.x)\<close> is a stable sort on the left edge;
     \<^verbatim>\<open>items[0].str\<close> throws a TypeError on an empty array\<close>
  "mergeLine items =
     (case sort_key i_x items of
        [] \<Rightarrow> Inl TypeError
      | first # rest \<Rightarrow>
          (let txt = mergeText (i_str first) first rest;
               y = fold min (map i_y rest) (i_y first);
               bottom = fold max (map i_bottom rest) (i_bottom first)
           in Inr \<lparr>l_text = txt, l_x = i_x first, l_y = y, l_bottom = bottom,
                   l_height = bottom - y\<rparr>))"

subsection \<open>Step 1: text items in viewport coordinates\<close>

record RawItem =
  \<comment> \<open>an item of \<^verbatim>\<open>textContent.items\<close>; \<open>r_vx\<close> and \<open>r_vy\<close> are the point that
     \<^verbatim>\<open>viewport.convertToViewportPoint\<close> returns for its origin\<close>
  r_str :: jsstring
  r_vx :: real
  r_vy :: real
  r_width :: real
  r_height :: real

definition scale :: real where
  "scale = 2"

definition toViewportItem :: "RawItem \<Rightarrow> TextItemPosition" where
  "toViewportItem item =
     (let w = r_width item * scale;
          h = (if \<bar>r_height item * scale\<bar> = 0 then 10 else \<bar>r_height item * scale\<bar>)
      in \<lparr>i_str = r_str item, i_x = r_vx item, i_y = r_vy item - h, i_bottom = r_vy item,
            i_width = w, i_height = h, i_right = r_vx item + w\<rparr>)"

definition trim :: "jsstring \<Rightarrow> jsstring" where
  "trim s = rev (dropWhile isWhitespace (rev (dropWhile isWhitespace s)))"

definition viewportItems :: "RawItem list \<Rightarrow> TextItemPosition list" where
  "viewportItems raw = filter (\<lambda>i. length (trim (i_str i)) > 0) (map toViewportItem raw)"

subsection \<open>Step 2: grouping into lines\<close>

definition compareItems :: "TextItemPosition \<Rightarrow> TextItemPosition \<Rightarrow> real" where
  \<comment> \<open>the comparator handed to \<^verbatim>\<open>items.sort\<close>\<close>
  "compareItems a b =
     (let yDiff = \<bar>i_bottom a - i_bottom b\<bar>
      in if yDiff < 8 then i_x a - i_x b else i_bottom a - i_bottom b)"

text \<open>
  The comparator is not transitive, and the order in which \<^verbatim>\<open>Array.prototype.sort\<close>
  leaves the array is then up to the engine. The engine's sort is therefore a parameter
  \<open>engineSort\<close> of everything that runs it; nothing is assumed of it.
\<close>

type_synonym engine_sort =
  "(TextItemPosition \<Rightarrow> TextItemPosition \<Rightarrow> real) \<Rightarrow> TextItemPosition list \<Rightarrow> TextItemPosition list"

fun groupStep ::
  "Line list \<times> TextItemPosition list \<Rightarrow> TextItemPosition \<Rightarrow> error + Line list \<times> TextItemPosition list" where
  \<comment> \<open>the body of \<^verbatim>\<open>items.forEach\<close> on the state \<open>(lines, currentLine)\<close>\<close>
  "groupStep (lines, currentLine) item =
     (if length currentLine = 0 then Inr (lines, currentLine @ [item])
      else
        (let lst = currentLine ! (length currentLine - 1)
         in if \<bar>i_bottom item - i_bottom lst\<bar> < 8 then Inr (lines, currentLine @ [item])
            else (case mergeLine currentLine of
                    Inl e \<Rightarrow> Inl e
                  | Inr l \<Rightarrow> Inr (lines @ [l], [item]))))"

fun forEachItem ::
  "Line list \<times> TextItemPosition list \<Rightarrow> TextItemPosition list \<Rightarrow> error + Line list \<times> TextItemPosition list" where
  "forEachItem st [] = Inr st"
| "forEachItem st (item # items) =
     (case groupStep st item of
        Inl e \<Rightarrow> Inl e
      | Inr st1 \<Rightarrow> forEachItem st1 items)"

definition buildLines :: "TextItemPosition list \<Rightarrow> error + Line list" where
  \<comment> \<open>lines 74 to 91, on the sorted items\<close>
  "buildLines items =
     (case forEachItem ([], []) items of
        Inl e \<Rightarrow> Inl e
      | Inr (lines, currentLine) \<Rightarrow>
          if length currentLine > 0
          then (case mergeLine currentLine of
                  Inl e \<Rightarrow> Inl e
                | Inr l \<Rightarrow> Inr (lines @ [l]))
          else Inr lines)"

subsection \<open>Step 5: the crop region of a caption\<close>

definition linesAbove :: "Line list \<Rightarrow> real \<Rightarrow> Line list" where
  \<comment> \<open>the filter, then the stable sort by descending bottom\<close>
  "linesAbove lines cropBottom =
     sort_key (\<lambda>l. - l_bottom l) (filter (\<lambda>l. l_bottom l < cropBottom \<and> l_bottom l > 0) lines)"

definition initialCropTop :: "Line list \<Rightarrow> real \<Rightarrow> real" where
  \<comment> \<open>\<^verbatim>\<open>cropTop\<close> after lines 132 to 139\<close>
  "initialCropTop lines cropBottom =
     (case linesAbove lines cropBottom of
        nearestLine # _ \<Rightarrow> l_bottom nearestLine + 15
      | [] \<Rightarrow> max 0 (cropBottom - 600))"

definition finalCropTop :: "Line list \<Rightarrow> real \<Rightarrow> real" where
  \<comment> \<open>\<^verbatim>\<open>cropTop\<close> after the sanity check of lines 143 to 145\<close>
  "finalCropTop lines cropBottom =
     (let cropTop = initialCropTop lines cropBottom
      in if cropBottom - cropTop < 100 then max 0 (cropBottom - 450) else cropTop)"

definition cropRegion :: "Line list \<Rightarrow> Line \<Rightarrow> real \<times> real" where
  \<comment> \<open>\<^verbatim>\<open>(cropTop, cropBottom)\<close> of a caption after line 145\<close>
  "cropRegion lines caption =
     (let cropBottom = l_y caption
      in (finalCropTop lines cropBottom, cropBottom))"

subsection \<open>The crop height in binary64\<close>

definition roundEven :: "real \<Rightarrow> int" where
  \<comment> \<open>the nearest integer, the even one of the two at a tie\<close>
  "roundEven y =
     (let f = \<lfloor>y\<rfloor>; r = y - of_int f
      in if r < 1 / 2 then f else if r > 1 / 2 then f + 1 else if even f then f else f + 1)"

definition round64 :: "real \<Rightarrow> real" where
  \<comment> \<open>rounding to the nearest number with 53 significant bits, ties to even. The
     exponent is not bounded: overflow to Infinity and the coarser grid below 2^-1022 are
     left out. A sum or difference of two binary64 numbers that stays finite is rounded as
     the machine rounds it (below 2^-1022 it is a multiple of 2^-1074 and exact in both).\<close>
  "round64 x =
     (if x = 0 then 0
      else (let ulp = 2 powr (of_int \<lfloor>log 2 \<bar>x\<bar>\<rfloor> - 52)
            in of_int (roundEven (x / ulp)) * ulp))"

definition initialCropTop64 :: "Line list \<Rightarrow> real \<Rightarrow> real" where
  \<comment> \<open>lines 129 to 139: \<^verbatim>\<open>nearestLine.bottom + 15\<close> and \<^verbatim>\<open>cropBottom - 600\<close> rounded.
     The comparisons of the filter are exact, and a rounded difference of two binary64
     numbers has the sign of the exact one, so the sort orders the lines as in
     \<open>linesAbove\<close>.\<close>
  "initialCropTop64 lines cropBottom =
     (case linesAbove lines cropBottom of
        nearestLine # _ \<Rightarrow> round64 (l_bottom nearestLine + 15)
      | [] \<Rightarrow> max 0 (round64 (cropBottom - 600)))"

definition finalCropTop64 :: "Line list \<Rightarrow> real \<Rightarrow> real" where
  \<comment> \<open>lines 143 to 145: \<^verbatim>\<open>cropBottom - cropTop\<close> and \<^verbatim>\<open>cropBottom - 450\<close> rounded\<close>
  "finalCropTop64 lines cropBottom =
     (let cropTop = initialCropTop64 lines cropBottom
      in if round64 (cropBottom - cropTop) < 100 then max 0 (round64 (cropBottom - 450))
         else cropTop)"

definition cropHeight64 :: "Line list \<Rightarrow> Line \<Rightarrow> real" where
  \<comment> \<open>\<^verbatim>\<open>cropHeight\<close> of line 147 for a caption\<close>
  "cropHeight64 lines caption =
     (let cropBottom = l_y caption;
          cropTop = finalCropTop64 lines cropBottom
      in round64 (cropBottom - cropTop))"

definition heightDiscard64 :: "Line list \<Rightarrow> Line \<Rightarrow> bool" where
  \<comment> \<open>the test of line 148: the caption is skipped\<close>
  "heightDiscard64 lines caption \<longleftrightarrow> cropHeight64 lines caption \<le> 0"

subsection \<open>Pages and the document\<close>

record ExtractedImage =
  img_id :: jsstring
  img_label :: jsstring
  img_src :: jsstring
  img_page :: nat

datatype crop_outcome =
  NoContext          \<comment> \<open>\<^verbatim>\<open>cropCanvas.getContext('2d')\<close> is null\<close>
| CropThrows         \<comment> \<open>\<^verbatim>\<open>drawImage\<close> or \<^verbatim>\<open>toDataURL\<close> throws\<close>
| DataURL jsstring   \<comment> \<open>what \<^verbatim>\<open>toDataURL\<close> returns\<close>

record Page =
  \<comment> \<open>what the PDF engine and the browser answer for one page\<close>
  textContent :: "RawItem list option"
    \<comment> \<open>None: \<^verbatim>\<open>getPage\<close> or \<^verbatim>\<open>getTextContent\<close> rejects, or step 1 throws on an item\<close>
  canvasContext :: bool                  \<comment> \<open>\<^verbatim>\<open>canvas.getContext('2d')\<close> is not null\<close>
  renders :: bool                        \<comment> \<open>\<^verbatim>\<open>page.render\<close> resolves\<close>
  cropCanvas :: "nat \<Rightarrow> real \<Rightarrow> real \<Rightarrow> crop_outcome"
    \<comment> \<open>the crop canvas of the caption at an index of \<^verbatim>\<open>captionLines\<close>, for a top and a height\<close>

fun decimal :: "nat \<Rightarrow> jsstring" where
  \<comment> \<open>a page number inside a template literal\<close>
  "decimal n = (if n < 10 then [48 + n] else decimal (n div 10) @ [48 + n mod 10])"

declare decimal.simps [simp del]

fun cropLoop ::
  "nat \<Rightarrow> Page \<Rightarrow> Line list \<Rightarrow> nat \<Rightarrow> Line list \<Rightarrow> ExtractedImage list
     \<Rightarrow> error option \<times> ExtractedImage list" where
  \<comment> \<open>the loop over \<^verbatim>\<open>captionLines\<close> from index \<open>k\<close> on; the first component is the
     exception that left the loop, if any\<close>
  "cropLoop pageNum pg lines k [] extractedFigures = (None, extractedFigures)"
| "cropLoop pageNum pg lines k (caption # rest) extractedFigures =
     (case captionRegex (l_text caption) of
        None \<Rightarrow> cropLoop pageNum pg lines (Suc k) rest extractedFigures
      | Some digits \<Rightarrow>
          (let label = figureLabel digits;
               (cropTop, cropBottom) = cropRegion lines caption;
               cropHeight = cropBottom - cropTop
           in if cropHeight \<le> 0 then cropLoop pageNum pg lines (Suc k) rest extractedFigures
              else (case cropCanvas pg k cropTop cropHeight of
                      NoContext \<Rightarrow> cropLoop pageNum pg lines (Suc k) rest extractedFigures
                    | CropThrows \<Rightarrow> (Some CropError, extractedFigures)
                    | DataURL src \<Rightarrow>
                        cropLoop pageNum pg lines (Suc k) rest
                          (extractedFigures @
                            [\<lparr>img_id = decimal pageNum @ lit ''-'' @ label, img_label = label,
                              img_src = src, img_page = pageNum\<rparr>]))))"

definition pageBody ::
  "engine_sort \<Rightarrow> nat \<Rightarrow> Page \<Rightarrow> ExtractedImage list \<Rightarrow> error option \<times> ExtractedImage list" where
  \<comment> \<open>the \<^verbatim>\<open>try\<close> block of one page\<close>
  "pageBody engineSort pageNum pg extractedFigures =
     (case textContent pg of
        None \<Rightarrow> (Some TextError, extractedFigures)
      | Some raw \<Rightarrow>
          (case buildLines (engineSort compareItems (viewportItems raw)) of
             Inl e \<Rightarrow> (Some e, extractedFigures)
           | Inr lines \<Rightarrow>
               (let captionLines = filter (\<lambda>l. captionRegex (l_text l) \<noteq> None) lines
                in if length captionLines = 0 then (None, extractedFigures)
                   else if \<not> canvasContext pg then (None, extractedFigures)
                   else if \<not> renders pg then (Some RenderError, extractedFigures)
                   else cropLoop pageNum pg lines 0 captionLines extractedFigures)))"

definition processPage ::
  "engine_sort \<Rightarrow> nat \<Rightarrow> Page \<Rightarrow> ExtractedImage list \<Rightarrow> ExtractedImage list" where
  \<comment> \<open>\<^verbatim>\<open>try { ... } catch (e) { console.error(...) }\<close>: the exception is logged and dropped\<close>
  "processPage engineSort pageNum pg extractedFigures =
     snd (pageBody engineSort pageNum pg extractedFigures)"

fun pageLoop :: "engine_sort \<Rightarrow> nat \<Rightarrow> Page list \<Rightarrow> ExtractedImage list \<Rightarrow> ExtractedImage list" where
  \<comment> \<open>the loop over the pages from \<open>pageNum\<close> on\<close>
  "pageLoop engineSort pageNum [] extractedFigures = extractedFigures"
| "pageLoop engineSort pageNum (pg # pages) extractedFigures =
     pageLoop engineSort (Suc pageNum) pages (processPage engineSort pageNum pg extractedFigures)"

definition extractImagesFromPdf :: "engine_sort \<Rightarrow> Page list option \<Rightarrow> error + ExtractedImage list" where
  \<comment> \<open>the document is None when it cannot be loaded; that happens outside the \<^verbatim>\<open>try\<close>\<close>
  "extractImagesFromPdf engineSort doc =
     (case doc of
        None \<Rightarrow> Inl LoadError
      | Some pages \<Rightarrow> Inr (pageLoop engineSort 1 pages []))"

subsection \<open>Where a figure comes from\<close>

definition figureFrom :: "engine_sort \<Rightarrow> nat \<Rightarrow> Page \<Rightarrow> ExtractedImage \<Rightarrow> bool" where
  \<comment> \<open>a predicate of the proofs, not of the source: the figure is what the crop loop of
     the page pushes for one of its caption lines\<close>
  "figureFrom engineSort pageNum pg f \<longleftrightarrow>
     (\<exists>raw lines caption digits k.
        textContent pg = Some raw \<and> canvasContext pg \<and> renders pg \<and>
        buildLines (engineSort compareItems (viewportItems raw)) = Inr lines \<and>
        caption \<in> set lines \<and> captionRegex (l_text caption) = Some digits \<and>
        fst (cropRegion lines caption) < snd (cropRegion lines caption) \<and>
        cropCanvas pg k (fst (cropRegion lines caption))
          (snd (cropRegion lines caption) - fst (cropRegion lines caption)) = DataURL (img_src f) \<and>
        img_label f = figureLabel digits \<and>
        img_id f = decimal pageNum @ lit ''-'' @ figureLabel digits \<and>
        img_page f = pageNum)"

subsection \<open>Example data\<close>

definition introLine :: Line where
  "introLine = \<lparr>l_text = lit ''Intro text'', l_x = 72, l_y = 280, l_bottom = 300, l_height = 20\<rparr>"

definition tightLine :: Line where
  "tightLine = \<lparr>l_text = lit ''see below'', l_x = 72, l_y = 415, l_bottom = 435, l_height = 20\<rparr>"

definition figureCaption :: Line where
  "figureCaption =
     \<lparr>l_text = lit ''Figure 1: results'', l_x = 72, l_y = 500, l_bottom = 520, l_height = 20\<rparr>"

definition topCaption :: Line where
  "topCaption =
     \<lparr>l_text = lit ''Fig. 3 Overview'', l_x = 72, l_y = 200, l_bottom = 220, l_height = 20\<rparr>"

definition runFig :: TextItemPosition where
  "runFig = \<lparr>i_str = lit ''Fig'', i_x = 72, i_y = 600, i_bottom = 620, i_width = 30,
              i_height = 20, i_right = 102\<rparr>"

definition runUre :: TextItemPosition where
  "runUre = \<lparr>i_str = lit ''ure'', i_x = 104, i_y = 600, i_bottom = 620, i_width = 30,
              i_height = 20, i_right = 134\<rparr>"

definition runOne :: TextItemPosition where
  "runOne = \<lparr>i_str = lit ''1'', i_x = 140, i_y = 600, i_bottom = 620, i_width = 10,
              i_height = 20, i_right = 150\<rparr>"

definition runBelow :: TextItemPosition where
  "runBelow = \<lparr>i_str = lit ''Results'', i_x = 72, i_y = 608, i_bottom = 628, i_width = 70,
                i_height = 20, i_right = 142\<rparr>"

definition keepOrder :: engine_sort where
  \<comment> \<open>an engine on an array that is in order already\<close>
  "keepOrder cmp items = items"

definition pngOf :: "nat \<Rightarrow> real \<Rightarrow> real \<Rightarrow> crop_outcome" where
  "pngOf k cropTop cropHeight = DataURL (lit ''data:image/png'')"

definition rawIntro :: RawItem where
  "rawIntro = \<lparr>r_str = lit ''Intro text'', r_vx = 72, r_vy = 100, r_width = 50, r_height = 10\<rparr>"

definition rawCaption :: RawItem where
  "rawCaption =
     \<lparr>r_str = lit ''Figure 1: results'', r_vx = 72, r_vy = 620, r_width = 80, r_height = 10\<rparr>"

definition rawContinued :: RawItem where
  "rawContinued =
     \<lparr>r_str = lit ''Fig. 1 (continued)'', r_vx = 72, r_vy = 1300, r_width = 80, r_height = 10\<rparr>"

definition rawClipped :: RawItem where
  "rawClipped =
     \<lparr>r_str = lit ''Figure 7 Map'', r_vx = 72, r_vy = 15, r_width = 60, r_height = 10\<rparr>"

definition goodPage :: Page where
  "goodPage = \<lparr>textContent = Some [rawIntro, rawCaption], canvasContext = True,
                renders = True, cropCanvas = pngOf\<rparr>"

definition failedPage :: Page where
  "failedPage = \<lparr>textContent = None, canvasContext = True, renders = True, cropCanvas = pngOf\<rparr>"


definition clippedPage :: Page where
  "clippedPage = \<lparr>textContent = Some [rawClipped, rawCaption], canvasContext = True,
                   renders = True, cropCanvas = pngOf\<rparr>"

definition pageIntroLine :: Line where
  "pageIntroLine = \<lparr>l_text = lit ''Intro text'', l_x = 72, l_y = 80, l_bottom = 100, l_height = 20\<rparr>"

definition pageCaptionLine :: Line where
  "pageCaptionLine =
     \<lparr>l_text = lit ''Figure 1: results'', l_x = 72, l_y = 600, l_bottom = 620, l_height = 20\<rparr>"

definition continuedLine :: Line where
  "continuedLine =
     \<lparr>l_text = lit ''Fig. 1 (continued)'', l_x = 72, l_y = 1280, l_bottom = 1300, l_height = 20\<rparr>"

definition clippedLine :: Line where
  "clippedLine =
     \<lparr>l_text = lit ''Figure 7 Map'', l_x = 72, l_y = - 5, l_bottom = 15, l_height = 20\<rparr>"

definition figureOne :: "nat \<Rightarrow> ExtractedImage" where
  "figureOne pageNum =
     \<lparr>img_id = decimal pageNum @ lit ''-Figure 1'', img_label = lit ''Figure 1'',
      img_src = lit ''data:image/png'', img_page = pageNum\<rparr>"

definition farCaption :: Line where
  "farCaption = \<lparr>l_text = lit ''Figure 1: results'', l_x = 72, l_y = 2 ^ 70,
                  l_bottom = 2 ^ 70 + 2 ^ 18, l_height = 2 ^ 18\<rparr>"

definition edgeCaption :: Line where
  "edgeCaption = \<lparr>l_text = lit ''Figure 1: results'', l_x = 72, l_y = 2 ^ 63 + 2 ^ 11,
                   l_bottom = 2 ^ 63 + 2 ^ 12, l_height = 2 ^ 11\<rparr>"

definition lastKeptCaption :: Line where
  "lastKeptCaption = \<lparr>l_text = lit ''Figure 1: results'', l_x = 72, l_y = 2 ^ 63,
                       l_bottom = 2 ^ 63 + 2 ^ 11, l_height = 2 ^ 11\<rparr>"

section \<open>The examples, evaluated\<close>

lemma example_linesAbove:
  "linesAbove [introLine, figureCaption] 500 = [introLine]"
  "linesAbove [tightLine, figureCaption] 500 = [tightLine]"
  "linesAbove [topCaption] 200 = []"
  by (simp_all add: linesAbove_def introLine_def tightLine_def figureCaption_def topCaption_def)

lemmas regex_defs = captionRegex_def lit_def matchNumber_def isSep_def isDigit_def
  isWhitespace_def canonicalize_def

lemmas line_defs = pageIntroLine_def pageCaptionLine_def continuedLine_def clippedLine_def

lemma example_merge:
  "mergeLine [runFig, runUre] =
     Inr \<lparr>l_text = lit ''Figure'', l_x = 72, l_y = 600, l_bottom = 620, l_height = 20\<rparr>"
  "mergeLine [runOne] =
     Inr \<lparr>l_text = lit ''1'', l_x = 140, l_y = 600, l_bottom = 620, l_height = 20\<rparr>"
  "mergeLine [runFig] =
     Inr \<lparr>l_text = lit ''Fig'', l_x = 72, l_y = 600, l_bottom = 620, l_height = 20\<rparr>"
  "mergeLine [runUre] =
     Inr \<lparr>l_text = lit ''ure'', l_x = 104, l_y = 600, l_bottom = 620, l_height = 20\<rparr>"
  by (simp_all add: mergeLine_def runFig_def runUre_def runOne_def lit_def Let_def)

lemma example_lines:
  "buildLines (keepOrder compareItems (viewportItems [rawIntro, rawCaption])) =
     Inr [pageIntroLine, pageCaptionLine]"
  "buildLines (keepOrder compareItems (viewportItems [rawIntro, rawCaption, rawContinued])) =
     Inr [pageIntroLine, pageCaptionLine, continuedLine]"
  "buildLines (keepOrder compareItems (viewportItems [rawClipped, rawCaption])) =
     Inr [clippedLine, pageCaptionLine]"
  by (simp_all add: viewportItems_def toViewportItem_def rawIntro_def rawCaption_def
      rawContinued_def rawClipped_def scale_def trim_def lit_def isWhitespace_def Let_def
      keepOrder_def buildLines_def mergeLine_def line_defs)

lemma example_captions:
  "captionRegex (l_text pageIntroLine) = None"
  "captionRegex (l_text pageCaptionLine) = Some (lit ''1'')"
  "captionRegex (l_text continuedLine) = Some (lit ''1'')"
  "captionRegex (l_text clippedLine) = Some (lit ''7'')"
  by (simp_all add: line_defs regex_defs)

lemma example_regions:
  "cropRegion [pageIntroLine, pageCaptionLine] pageCaptionLine = (115, 600)"
  "cropRegion [pageIntroLine, pageCaptionLine, continuedLine] pageCaptionLine = (115, 600)"
  "cropRegion [pageIntroLine, pageCaptionLine, continuedLine] continuedLine = (635, 1280)"
  "cropRegion [clippedLine, pageCaptionLine] clippedLine = (0, - 5)"
  "cropRegion [clippedLine, pageCaptionLine] pageCaptionLine = (30, 600)"
  by (simp_all add: cropRegion_def finalCropTop_def initialCropTop_def linesAbove_def Let_def
      line_defs)

lemma example_goodPage:
  "processPage keepOrder n goodPage figs = figs @ [figureOne n]"
  by (simp add: processPage_def pageBody_def goodPage_def example_lines example_captions
      example_regions pngOf_def figureOne_def figureLabel_def lit_def Let_def)


lemma decimal_digit: "n < 10 \<Longrightarrow> decimal n = [48 + n]"
  by (simp add: decimal.simps)

section \<open>Crop region inference\<close>

lemma set_linesAbove:
  "set (linesAbove lines cropBottom) = {l \<in> set lines. 0 < l_bottom l \<and> l_bottom l < cropBottom}"
  by (auto simp: linesAbove_def)

lemma sort_key_head_least:
  fixes f :: "'a \<Rightarrow> real"
  assumes "sort_key f xs = a # as"
  shows "a \<in> set xs \<and> (\<forall>b \<in> set xs. f a \<le> f b)"
proof -
  have s: "sorted (map f (a # as))"
    using sorted_sort_key [of f xs] assms by simp
  have e: "set xs = set (a # as)"
    using set_sort [of f xs] assms by simp
  show ?thesis using s e by auto
qed

lemma linesAbove_nearest:
  assumes "linesAbove lines cropBottom = nearestLine # rest"
  shows "l_bottom nearestLine = Max (l_bottom ` set (linesAbove lines cropBottom))"
proof -
  let ?S = "filter (\<lambda>l. l_bottom l < cropBottom \<and> l_bottom l > 0) lines"
  have h: "nearestLine \<in> set ?S \<and> (\<forall>b \<in> set ?S. - l_bottom nearestLine \<le> - l_bottom b)"
    using sort_key_head_least [of "\<lambda>l. - l_bottom l" ?S nearestLine rest] assms
    by (simp add: linesAbove_def)
  have e: "set (linesAbove lines cropBottom) = set ?S"
    by (simp add: linesAbove_def)
  have "Max (l_bottom ` set ?S) = l_bottom nearestLine"
  proof (rule Max_eqI)
    show "finite (l_bottom ` set ?S)" by simp
    show "l_bottom nearestLine \<in> l_bottom ` set ?S" using h by blast
    fix v assume "v \<in> l_bottom ` set ?S"
    then show "v \<le> l_bottom nearestLine" using h by auto
  qed
  then show ?thesis using e by simp
qed



text \<open>
  C1. The bottom of the crop is the top Y of the caption line. The lines searched above
  the caption are exactly the lines of the page whose bottom Y lies strictly between 0 and
  that crop bottom. When there is one, the crop top computed first (before the
  minimum-window correction) is the greatest such bottom Y plus 15. With a caption at top
  Y 500 whose nearest line above has bottom Y 300, the crop top is 315 and the crop bottom
  500, and the correction leaves that region as it is.
\<close>

theorem crop_above_caption:
  "snd (cropRegion lines caption) = l_y caption \<and>
   set (linesAbove lines (l_y caption)) =
     {l \<in> set lines. 0 < l_bottom l \<and> l_bottom l < l_y caption} \<and>
   (linesAbove lines (l_y caption) \<noteq> [] \<longrightarrow>
      initialCropTop lines (l_y caption) =
        Max (l_bottom ` set (linesAbove lines (l_y caption))) + 15) \<and>
   (l_y caption = 500 \<and> nearest \<in> set lines \<and> l_bottom nearest = 300 \<and>
    (\<forall>l \<in> set lines. 0 < l_bottom l \<and> l_bottom l < 500 \<longrightarrow> l_bottom l \<le> 300) \<longrightarrow>
      initialCropTop lines (l_y caption) = 315 \<and> cropRegion lines caption = (315, 500))"
proof (intro conjI impI)
  show "snd (cropRegion lines caption) = l_y caption"
    by (simp add: cropRegion_def Let_def)
  show "set (linesAbove lines (l_y caption)) =
     {l \<in> set lines. 0 < l_bottom l \<and> l_bottom l < l_y caption}"
    by (rule set_linesAbove)
  show g: "initialCropTop lines (l_y caption) =
        Max (l_bottom ` set (linesAbove lines (l_y caption))) + 15"
    if ne0: "linesAbove lines (l_y caption) \<noteq> []"
  proof -
    obtain n rest where nr: "linesAbove lines (l_y caption) = n # rest"
      using ne0 by (cases "linesAbove lines (l_y caption)") auto
    then show ?thesis
      using linesAbove_nearest [OF nr] by (simp add: initialCropTop_def)
  qed
  assume a: "l_y caption = 500 \<and> nearest \<in> set lines \<and> l_bottom nearest = 300 \<and>
    (\<forall>l \<in> set lines. 0 < l_bottom l \<and> l_bottom l < 500 \<longrightarrow> l_bottom l \<le> 300)"
  let ?A = "linesAbove lines (l_y caption)"
  have mem: "nearest \<in> set ?A"
    using a by (simp add: set_linesAbove)
  then have ne: "?A \<noteq> []" by auto
  have "Max (l_bottom ` set ?A) = 300"
  proof (rule Max_eqI)
    show "finite (l_bottom ` set ?A)" by simp
    show "300 \<in> l_bottom ` set ?A" using mem a by force
    fix v assume "v \<in> l_bottom ` set ?A"
    then show "v \<le> 300" using a by (auto simp: set_linesAbove)
  qed
  then show i: "initialCropTop lines (l_y caption) = 315"
    using g [OF ne] by simp
  show "cropRegion lines caption = (315, 500)"
    using i a by (simp add: cropRegion_def finalCropTop_def Let_def)
qed

theorem crop_above_caption_witness:
  "linesAbove [introLine, figureCaption] (l_y figureCaption) \<noteq> [] \<and>
   l_y figureCaption = 500 \<and> introLine \<in> set [introLine, figureCaption] \<and>
   l_bottom introLine = 300 \<and>
   initialCropTop [introLine, figureCaption] (l_y figureCaption) = 315 \<and>
   cropRegion [introLine, figureCaption] figureCaption = (315, 500)"
proof -
  have y: "l_y figureCaption = 500"
    by (simp add: figureCaption_def)
  have ne: "linesAbove [introLine, figureCaption] (l_y figureCaption) \<noteq> []"
    by (simp add: y example_linesAbove)
  have hyp: "l_y figureCaption = 500 \<and> introLine \<in> set [introLine, figureCaption] \<and>
    l_bottom introLine = 300 \<and>
    (\<forall>l \<in> set [introLine, figureCaption]. 0 < l_bottom l \<and> l_bottom l < 500 \<longrightarrow> l_bottom l \<le> 300)"
    by (simp add: figureCaption_def introLine_def)
  have "initialCropTop [introLine, figureCaption] (l_y figureCaption) = 315 \<and>
        cropRegion [introLine, figureCaption] figureCaption = (315, 500)"
    using crop_above_caption [of "[introLine, figureCaption]" figureCaption introLine] hyp
    by blast
  then show ?thesis
    using ne hyp by blast
qed

text \<open>
  C3. When the window computed first (crop bottom minus the first crop top) is less than
  100 high, that top is discarded and the crop top is max(0, crop bottom - 450). A window
  of height 50 is an instance.
\<close>

theorem minimum_window:
  "cropBottom - initialCropTop lines cropBottom < 100 \<Longrightarrow>
     finalCropTop lines cropBottom = max 0 (cropBottom - 450) \<and>
     (l_y caption = cropBottom \<longrightarrow> cropRegion lines caption = (max 0 (cropBottom - 450), cropBottom))"
  by (simp add: finalCropTop_def cropRegion_def Let_def)

theorem minimum_window_witness:
  "(500::real) - initialCropTop [tightLine, figureCaption] 500 = 50 \<and>
   finalCropTop [tightLine, figureCaption] 500 = 50 \<and>
   cropRegion [tightLine, figureCaption] figureCaption = (50, 500)"
proof -
  have i: "initialCropTop [tightLine, figureCaption] 500 = 450"
    by (simp add: initialCropTop_def example_linesAbove) (simp add: tightLine_def)
  have y: "l_y figureCaption = 500"
    by (simp add: figureCaption_def)
  show ?thesis
    using minimum_window [of 500 "[tightLine, figureCaption]" figureCaption] i y by simp
qed

text \<open>
  C4. When no line of the page has its bottom Y strictly between 0 and the crop bottom,
  the crop top is max(0, crop bottom - 600), both as computed first and after the
  minimum-window correction. The page height plays no part. A crop bottom of 200 gives
  the crop top 0.
\<close>

theorem no_line_above:
  assumes "\<not> (\<exists>l \<in> set lines. 0 < l_bottom l \<and> l_bottom l < cropBottom)"
  shows "initialCropTop lines cropBottom = max 0 (cropBottom - 600) \<and>
         finalCropTop lines cropBottom = max 0 (cropBottom - 600) \<and>
         (cropBottom = 200 \<longrightarrow> finalCropTop lines cropBottom = 0)"
proof -
  have "set (linesAbove lines cropBottom) = {}"
    using assms by (auto simp: set_linesAbove)
  then have "linesAbove lines cropBottom = []" by simp
  then have i: "initialCropTop lines cropBottom = max 0 (cropBottom - 600)"
    by (simp add: initialCropTop_def)
  then show ?thesis
    by (auto simp: finalCropTop_def Let_def)
qed

theorem no_line_above_witness:
  "\<not> (\<exists>l \<in> set [topCaption]. 0 < l_bottom l \<and> l_bottom l < 200) \<and>
   initialCropTop [topCaption] 200 = 0 \<and> finalCropTop [topCaption] 200 = 0"
proof -
  have h: "\<not> (\<exists>l \<in> set [topCaption]. 0 < l_bottom l \<and> l_bottom l < 200)"
    by (simp add: topCaption_def)
  show ?thesis
    using no_line_above [OF h] h by simp
qed

subsection \<open>The height test in binary64\<close>

lemma roundEven_error: "\<bar>of_int (roundEven y) - y\<bar> \<le> 1 / 2"
proof -
  have "of_int \<lfloor>y\<rfloor> \<le> y" and "y < of_int \<lfloor>y\<rfloor> + 1"
    by linarith+
  then show ?thesis
    by (auto simp: roundEven_def Let_def)
qed

lemma roundEven_near:
  assumes "\<bar>y - of_int n\<bar> < 1 / 2"
  shows "roundEven y = n"
proof -
  have "\<bar>of_int (roundEven y) - of_int n\<bar> < (1::real)"
    using roundEven_error [of y] assms by linarith
  then have "\<bar>roundEven y - n\<bar> < 1"
    by (metis of_int_abs of_int_diff of_int_less_1_iff)
  then show ?thesis by linarith
qed

lemma pow2_floor_log:
  assumes "x \<noteq> 0"
  shows "2 powr of_int \<lfloor>log 2 \<bar>x\<bar>\<rfloor> \<le> \<bar>x\<bar>"
proof -
  have p: "0 < \<bar>x\<bar>" using assms by simp
  have "of_int \<lfloor>log 2 \<bar>x\<bar>\<rfloor> \<le> log 2 \<bar>x\<bar>" by simp
  then have "2 powr of_int \<lfloor>log 2 \<bar>x\<bar>\<rfloor> \<le> 2 powr log 2 \<bar>x\<bar>"
    by (simp only: powr_le_cancel_iff [of 2] one_less_numeral_iff semiring_norm)
  then show ?thesis using p by simp
qed

lemma round64_error: "\<bar>round64 x - x\<bar> \<le> \<bar>x\<bar> / 2 ^ 53"
proof (cases "x = 0")
  case True
  then show ?thesis by (simp add: round64_def)
next
  case False
  define e where "e = \<lfloor>log 2 \<bar>x\<bar>\<rfloor>"
  define u :: real where "u = 2 powr (of_int e - 52)"
  have u: "0 < u" by (simp add: u_def)
  have r: "round64 x = of_int (roundEven (x / u)) * u"
    using False by (simp add: round64_def Let_def u_def e_def)
  have "\<bar>round64 x - x\<bar> = \<bar>of_int (roundEven (x / u)) - x / u\<bar> * u"
  proof -
    have "round64 x - x = (of_int (roundEven (x / u)) - x / u) * u"
      using u by (simp add: r field_simps)
    then show ?thesis using u by (simp add: abs_mult)
  qed
  also have "\<dots> \<le> (1 / 2) * u"
    using roundEven_error [of "x / u"] u by (intro mult_right_mono) simp_all
  also have "(1 / 2) * u = 2 powr of_int e / 2 ^ 53"
  proof -
    have "u = 2 powr of_int e * 2 powr (- 52)"
      by (simp add: u_def powr_add [symmetric])
    also have "(2::real) powr (- 52) = 1 / 2 ^ 52"
      by (simp add: powr_minus inverse_eq_divide)
    finally show ?thesis by simp
  qed
  also have "\<dots> \<le> \<bar>x\<bar> / 2 ^ 53"
    using pow2_floor_log [OF False] by (simp add: e_def divide_right_mono)
  finally show ?thesis .
qed

lemma round64_zero: "round64 0 = 0"
  by (simp add: round64_def)

lemma round64_value:
  assumes "2 powr of_int e \<le> \<bar>x\<bar>" and "\<bar>x\<bar> < 2 powr (of_int e + 1)"
    and "\<bar>x / 2 powr (of_int e - 52) - of_int n\<bar> < 1 / 2"
  shows "round64 x = of_int n * 2 powr (of_int e - 52)"
proof -
  have p: "0 < \<bar>x\<bar>"
  proof -
    have "(0::real) < 2 powr of_int e" by simp
    then show ?thesis using assms(1) by linarith
  qed
  then have nz: "x \<noteq> 0" by auto
  have "\<lfloor>log 2 \<bar>x\<bar>\<rfloor> = e"
    using assms(1,2) p by (simp add: floor_log_eq_powr_iff)
  then show ?thesis
    using nz roundEven_near [OF assms(3)] by (simp add: round64_def Let_def)
qed

lemma round64_sign:
  "0 < x \<Longrightarrow> 0 < round64 x"
  "x \<le> 0 \<Longrightarrow> round64 x \<le> 0"
proof -
  have e: "\<bar>round64 x - x\<bar> \<le> \<bar>x\<bar> / 2 ^ 53"
    by (rule round64_error)
  have "\<bar>x\<bar> / 2 ^ 53 \<le> \<bar>x\<bar> / 2"
    by (rule divide_left_mono) simp_all
  then have h: "\<bar>round64 x - x\<bar> \<le> \<bar>x\<bar> / 2"
    using e by linarith
  show "0 < round64 x" if "0 < x"
    using h that by linarith
  show "round64 x \<le> 0" if "x \<le> 0"
    using h that by linarith
qed

lemma corrected_height:
  assumes pos: "0 < cb" and bound: "cb \<le> 2 ^ 61" and rep: "round64 cb = cb"
  shows "round64 (cb - max 0 (round64 (cb - 450))) = min cb 450 \<or>
         100 \<le> round64 (cb - max 0 (round64 (cb - 450)))"
proof (cases "cb \<le> 450")
  case True
  then have "round64 (cb - 450) \<le> 0"
    by (intro round64_sign(2)) simp
  then have "max 0 (round64 (cb - 450)) = 0" by simp
  then show ?thesis using rep True by simp
next
  case False
  define d where "d = round64 (cb - 450)"
  have e1: "\<bar>d - (cb - 450)\<bar> \<le> \<bar>cb - 450\<bar> / 2 ^ 53"
    unfolding d_def by (rule round64_error)
  have dpos: "0 < d"
    unfolding d_def using False by (intro round64_sign(1)) simp
  have "\<bar>cb - 450\<bar> / 2 ^ 53 \<le> 2 ^ 61 / 2 ^ 53"
    using False bound by (intro divide_right_mono) simp_all
  then have e1b: "\<bar>d - (cb - 450)\<bar> \<le> 256"
    using e1 by simp
  then have x2: "194 \<le> cb - d" "cb - d \<le> 706"
    by (simp_all add: abs_le_iff)
  have e2: "\<bar>round64 (cb - d) - (cb - d)\<bar> \<le> \<bar>cb - d\<bar> / 2 ^ 53"
    by (rule round64_error)
  have "\<bar>cb - d\<bar> / 2 ^ 53 \<le> 706 / 2 ^ 53"
    using x2 by (intro divide_right_mono) simp_all
  then have "\<bar>round64 (cb - d) - (cb - d)\<bar> \<le> 1"
    using e2 by simp
  then have "100 \<le> round64 (cb - d)"
    using x2 by (simp add: abs_le_iff)
  moreover have "max 0 (round64 (cb - 450)) = d"
    using dpos by (simp add: d_def)
  ultimately show ?thesis by simp
qed

lemma round64_grid:
  assumes "round64 x = x" and "2 powr of_int k \<le> x" and "x < 2 powr (of_int k + 1)"
  shows "\<exists>m::int. x = of_int m * 2 powr (of_int k - 52)"
proof -
  have p: "0 < x"
  proof -
    have "(0::real) < 2 powr of_int k" by simp
    then show ?thesis using assms(2) by linarith
  qed
  have "\<lfloor>log 2 \<bar>x\<bar>\<rfloor> = k"
    using assms(2,3) p by (simp add: floor_log_eq_powr_iff)
  then have "round64 x = of_int (roundEven (x / 2 powr (of_int k - 52))) * 2 powr (of_int k - 52)"
    using p by (simp add: round64_def Let_def)
  then show ?thesis using assms(1) by metis
qed

lemma int_above: "(2 ^ 52 :: real) < of_int m \<Longrightarrow> (2 ^ 52 + 1 :: real) \<le> of_int m"
proof -
  assume "(2 ^ 52 :: real) < of_int m"
  then have "(of_int (2 ^ 52) :: real) < of_int m" by simp
  then have "2 ^ 52 < m" by (simp only: of_int_less_iff)
  then have "2 ^ 52 + 1 \<le> m" by linarith
  then have "(of_int (2 ^ 52 + 1) :: real) \<le> of_int m" by (simp only: of_int_le_iff)
  then show ?thesis by simp
qed

lemma round64_512: "round64 512 = 512"
  using round64_value [of 9 512 "2 ^ 52"] by (simp add: powr_minus)

lemma round64_1024: "round64 1024 = 1024"
  using round64_value [of 10 1024 "2 ^ 52"] by (simp add: powr_minus)

lemma step_back_512:
  assumes "cb = of_int m * 512" and "(2 ^ 52 :: real) < of_int m" and "(of_int m :: real) \<le> 2 ^ 53"
  shows "round64 (cb - 450) = cb - 512"
proof -
  have m1: "(2 ^ 52 + 1 :: real) \<le> of_int m" using assms(2) by (rule int_above)
  have "round64 (cb - 450) = of_int (m - 1) * 2 powr (of_int 61 - 52)"
  proof (rule round64_value)
    show "2 powr of_int 61 \<le> \<bar>cb - 450\<bar>"
      using m1 assms(1) by simp
    show "\<bar>cb - 450\<bar> < 2 powr (of_int 61 + 1)"
      using m1 assms by simp
    show "\<bar>(cb - 450) / 2 powr (of_int 61 - 52) - of_int (m - 1)\<bar> < 1 / 2"
      using assms(1) by (simp add: field_simps)
  qed
  then show ?thesis using assms(1) by (simp add: algebra_simps)
qed

lemma step_back_1024:
  assumes "cb = of_int m * 1024" and "(2 ^ 52 :: real) < of_int m" and "(of_int m :: real) \<le> 2 ^ 53"
  shows "round64 (cb - 600) = cb - 1024"
proof -
  have m1: "(2 ^ 52 + 1 :: real) \<le> of_int m" using assms(2) by (rule int_above)
  have "round64 (cb - 600) = of_int (m - 1) * 2 powr (of_int 62 - 52)"
  proof (rule round64_value)
    show "2 powr of_int 62 \<le> \<bar>cb - 600\<bar>"
      using m1 assms(1) by simp
    show "\<bar>cb - 600\<bar> < 2 powr (of_int 62 + 1)"
      using m1 assms by simp
    show "\<bar>(cb - 600) / 2 powr (of_int 62 - 52) - of_int (m - 1)\<bar> < 1 / 2"
      using assms(1) by (simp add: field_simps)
  qed
  then show ?thesis using assms(1) by (simp add: algebra_simps)
qed

lemma int_step: "(of_int a :: real) < of_int b \<Longrightarrow> (of_int a :: real) + 1 \<le> of_int b"
proof -
  assume "(of_int a :: real) < of_int b"
  then have "a < b" by (simp only: of_int_less_iff)
  then have "a + 1 \<le> b" by linarith
  then have "(of_int (a + 1) :: real) \<le> of_int b" by (simp only: of_int_le_iff)
  then show ?thesis by simp
qed

lemma round64_half:
  assumes "200 \<le> x"
  shows "100 \<le> round64 x"
proof -
  have e: "\<bar>round64 x - x\<bar> \<le> \<bar>x\<bar> / 2 ^ 53"
    by (rule round64_error)
  have "\<bar>x\<bar> / 2 ^ 53 \<le> \<bar>x\<bar> / 2"
    by (rule divide_left_mono) simp_all
  then show ?thesis using e assms by linarith
qed

lemma decompose_61:
  assumes "round64 cb = cb" and "2 ^ 61 < cb" and "cb \<le> 2 ^ 62"
  shows "\<exists>m::int. cb = of_int m * 512 \<and> (2 ^ 52 :: real) < of_int m \<and> (of_int m :: real) \<le> 2 ^ 53"
proof (cases "cb = 2 ^ 62")
  case True
  then have "cb = of_int (2 ^ 53) * 512 \<and> (2 ^ 52 :: real) < of_int (2 ^ 53) \<and>
      (of_int (2 ^ 53) :: real) \<le> 2 ^ 53"
    by simp
  then show ?thesis by blast
next
  case False
  then have lt: "cb < 2 ^ 62" using assms(3) by simp
  obtain m :: int where m: "cb = of_int m * 2 powr (of_int 61 - 52)"
    using round64_grid [of cb 61] assms(1,2) lt by auto
  then have c: "cb = of_int m * 512" by simp
  then show ?thesis using assms(2) lt by auto
qed

lemma decompose_62:
  assumes "round64 cb = cb" and "2 ^ 62 < cb" and "cb \<le> 2 ^ 63"
  shows "\<exists>m::int. cb = of_int m * 1024 \<and> (2 ^ 52 :: real) < of_int m \<and> (of_int m :: real) \<le> 2 ^ 53"
proof (cases "cb = 2 ^ 63")
  case True
  then have "cb = of_int (2 ^ 53) * 1024 \<and> (2 ^ 52 :: real) < of_int (2 ^ 53) \<and>
      (of_int (2 ^ 53) :: real) \<le> 2 ^ 53"
    by simp
  then show ?thesis by blast
next
  case False
  then have lt: "cb < 2 ^ 63" using assms(3) by simp
  obtain m :: int where m: "cb = of_int m * 2 powr (of_int 62 - 52)"
    using round64_grid [of cb 62] assms(1,2) lt by auto
  then have c: "cb = of_int m * 1024" by simp
  then show ?thesis using assms(2) lt by auto
qed

lemma corrected_height_61:
  assumes "round64 cb = cb" and "2 ^ 61 < cb" and "cb \<le> 2 ^ 62"
  shows "round64 (cb - max 0 (round64 (cb - 450))) = 512"
proof -
  obtain m :: int where m: "cb = of_int m * 512" "(2 ^ 52 :: real) < of_int m"
      "(of_int m :: real) \<le> 2 ^ 53"
    using decompose_61 [OF assms] by blast
  have "round64 (cb - 450) = cb - 512"
    using m by (rule step_back_512)
  moreover have "0 \<le> cb - 512" using assms(2) by simp
  ultimately have "cb - max 0 (round64 (cb - 450)) = 512" by simp
  then show ?thesis by (simp add: round64_512)
qed

lemma window_line_62:
  assumes cb: "cb = of_int m * 1024" and lo: "(2 ^ 52 :: real) < of_int m"
    and hi: "(of_int m :: real) \<le> 2 ^ 53"
    and rep: "round64 b = b" and pos: "0 < b" and below: "b < cb"
  shows "100 \<le> round64 (cb - round64 (b + 15))"
proof -
  have cbl: "2 ^ 62 < cb" and cbh: "cb \<le> 2 ^ 63"
    using cb lo hi by simp_all
  consider "b < 2 ^ 61" | "2 ^ 61 \<le> b \<and> b < 2 ^ 62" | "2 ^ 62 \<le> b"
    by linarith
  then show ?thesis
  proof cases
    case 1
    have e: "\<bar>round64 (b + 15) - (b + 15)\<bar> \<le> \<bar>b + 15\<bar> / 2 ^ 53"
      by (rule round64_error)
    have "\<bar>b + 15\<bar> / 2 ^ 53 \<le> (2 ^ 61 + 15) / 2 ^ 53"
      using 1 pos by (intro divide_right_mono) simp_all
    then have "\<bar>round64 (b + 15) - (b + 15)\<bar> \<le> 257"
      using e by simp
    then have "200 \<le> cb - round64 (b + 15)"
      using 1 cbl by (simp add: abs_le_iff)
    then show ?thesis by (rule round64_half)
  next
    case 2
    obtain j :: int where j0: "b = of_int j * 2 powr (of_int 61 - 52)"
      using round64_grid [of b 61] rep 2 by auto
    then have j: "b = of_int j * 512" by simp
    have "(of_int j :: real) < of_int (2 ^ 53)" using j 2 by simp
    then have "(of_int j :: real) + 1 \<le> of_int (2 ^ 53)" by (rule int_step)
    then have jh: "b + 512 \<le> 2 ^ 62" using j by simp
    have "round64 (b + 15) = of_int j * 2 powr (of_int 61 - 52)"
    proof (rule round64_value)
      show "2 powr of_int 61 \<le> \<bar>b + 15\<bar>" using 2 by simp
      show "\<bar>b + 15\<bar> < 2 powr (of_int 61 + 1)" using 2 jh by simp
      show "\<bar>(b + 15) / 2 powr (of_int 61 - 52) - of_int j\<bar> < 1 / 2"
        using j by (simp add: field_simps)
    qed
    then have t: "round64 (b + 15) = b" using j by simp
    have "(of_int j :: real) < of_int (2 * m)" using j cb below by simp
    then have "(of_int j :: real) + 1 \<le> of_int (2 * m)" by (rule int_step)
    then have "512 \<le> cb - b" using j cb by simp
    then have "200 \<le> cb - round64 (b + 15)" using t by simp
    then show ?thesis by (rule round64_half)
  next
    case 3
    have b63: "b < 2 ^ 63" using below cbh by simp
    obtain j :: int where j0: "b = of_int j * 2 powr (of_int 62 - 52)"
      using round64_grid [of b 62] rep 3 b63 by auto
    then have j: "b = of_int j * 1024" by simp
    have jm: "(of_int j :: real) < of_int m" using j cb below by simp
    then have jm1: "(of_int j :: real) + 1 \<le> of_int m" by (rule int_step)
    then have jh: "b + 1024 \<le> 2 ^ 63" using j hi by simp
    have "round64 (b + 15) = of_int j * 2 powr (of_int 62 - 52)"
    proof (rule round64_value)
      show "2 powr of_int 62 \<le> \<bar>b + 15\<bar>" using 3 by simp
      show "\<bar>b + 15\<bar> < 2 powr (of_int 62 + 1)" using 3 jh by simp
      show "\<bar>(b + 15) / 2 powr (of_int 62 - 52) - of_int j\<bar> < 1 / 2"
        using j by (simp add: field_simps)
    qed
    then have t: "round64 (b + 15) = b" using j by simp
    have "1024 \<le> cb - b" using jm1 j cb by simp
    then have "200 \<le> cb - round64 (b + 15)" using t by simp
    then show ?thesis by (rule round64_half)
  qed
qed

lemma window_62:
  assumes rep: "round64 cb = cb" and lo: "2 ^ 62 < cb" and hi: "cb \<le> 2 ^ 63"
    and lines: "\<forall>l \<in> set lines. round64 (l_bottom l) = l_bottom l"
  shows "100 \<le> round64 (cb - initialCropTop64 lines cb)"
proof -
  obtain m :: int where m: "cb = of_int m * 1024" "(2 ^ 52 :: real) < of_int m"
      "(of_int m :: real) \<le> 2 ^ 53"
    using decompose_62 [OF rep lo hi] by blast
  show ?thesis
  proof (cases "linesAbove lines cb")
    case Nil
    have "round64 (cb - 600) = cb - 1024"
      using m by (rule step_back_1024)
    moreover have "0 \<le> cb - 1024" using lo by simp
    ultimately have "cb - initialCropTop64 lines cb = 1024"
      using Nil by (simp add: initialCropTop64_def)
    then show ?thesis by (simp add: round64_1024)
  next
    case (Cons nearestLine rest)
    then have "nearestLine \<in> set (linesAbove lines cb)" by simp
    then have n: "nearestLine \<in> set lines" "0 < l_bottom nearestLine" "l_bottom nearestLine < cb"
      by (simp_all add: set_linesAbove)
    have "100 \<le> round64 (cb - round64 (l_bottom nearestLine + 15))"
      using m lines n by (intro window_line_62) auto
    then show ?thesis using Cons by (simp add: initialCropTop64_def)
  qed
qed

text \<open>
  C9, as amended. Let the top Y of a caption line and the bottom Y of every line of the
  page be binary64 numbers, as they are in the program. When the top Y is strictly
  positive and at most 2^63, the crop height that the code computes after the
  minimum-window correction is strictly positive: it is min(crop bottom, 450) or at least
  100. The test of line 148 does not skip such a caption, so with a top Y of at most 2^63
  a caption is dropped for its height only when the top Y of its line is 0 or less.
\<close>

theorem positive_top_kept:
  assumes "0 < l_y caption" and "l_y caption \<le> 2 ^ 63"
    and "round64 (l_y caption) = l_y caption"
    and "\<forall>l \<in> set lines. round64 (l_bottom l) = l_bottom l"
  shows "0 < cropHeight64 lines caption \<and>
         (cropHeight64 lines caption = min (l_y caption) 450 \<or>
          100 \<le> cropHeight64 lines caption) \<and>
         \<not> heightDiscard64 lines caption"
proof -
  define cb where "cb = l_y caption"
  define t0 where "t0 = initialCropTop64 lines cb"
  have h: "cropHeight64 lines caption =
      (if round64 (cb - t0) < 100 then round64 (cb - max 0 (round64 (cb - 450)))
       else round64 (cb - t0))"
    by (simp add: cropHeight64_def finalCropTop64_def Let_def cb_def t0_def)
  have rep: "round64 cb = cb" and pos: "0 < cb" and hi: "cb \<le> 2 ^ 63"
    using assms by (simp_all add: cb_def)
  have c: "round64 (cb - max 0 (round64 (cb - 450))) = min cb 450 \<or>
           100 \<le> round64 (cb - max 0 (round64 (cb - 450)))"
    if "round64 (cb - t0) < 100"
  proof -
    consider "cb \<le> 2 ^ 61" | "2 ^ 61 < cb \<and> cb \<le> 2 ^ 62" | "2 ^ 62 < cb"
      by linarith
    then show ?thesis
    proof cases
      case 1
      then show ?thesis using corrected_height [OF pos _ rep] by simp
    next
      case 2
      then show ?thesis using corrected_height_61 [OF rep] by simp
    next
      case 3
      then have "100 \<le> round64 (cb - t0)"
        unfolding t0_def using window_62 [OF rep _ hi assms(4)] by simp
      then show ?thesis using that by simp
    qed
  qed
  have d: "cropHeight64 lines caption = min cb 450 \<or> 100 \<le> cropHeight64 lines caption"
  proof (cases "round64 (cb - t0) < 100")
    case True
    then show ?thesis using c h by simp
  next
    case False
    then show ?thesis using h by simp
  qed
  then have p: "0 < cropHeight64 lines caption"
    using pos by auto
  show ?thesis
    using d p by (simp add: heightDiscard64_def cb_def)
qed

lemma round64_examples:
  "round64 600 = 600" "round64 115 = 115" "round64 485 = 485"
  using round64_value [of 9 600 "600 * 2 ^ 43"] round64_value [of 6 115 "115 * 2 ^ 46"]
    round64_value [of 8 485 "485 * 2 ^ 44"]
  by (simp_all add: powr_minus)

lemma example_height64:
  "cropHeight64 [pageIntroLine, pageCaptionLine] pageCaptionLine = 485"
  by (simp add: cropHeight64_def finalCropTop64_def initialCropTop64_def linesAbove_def Let_def
      line_defs round64_examples)

lemma round64_examples2:
  "round64 100 = 100" "round64 620 = 620"
  using round64_value [of 6 100 "100 * 2 ^ 46"] round64_value [of 9 620 "620 * 2 ^ 43"]
  by (simp_all add: powr_minus)

lemma round64_big:
  "round64 (2 ^ 63) = 2 ^ 63" "round64 (2 ^ 63 + 2 ^ 11) = 2 ^ 63 + 2 ^ 11"
  "round64 (2 ^ 63 + 2 ^ 12) = 2 ^ 63 + 2 ^ 12"
  "round64 (2 ^ 70) = 2 ^ 70" "round64 (2 ^ 70 + 2 ^ 18) = 2 ^ 70 + 2 ^ 18"
  using round64_value [of 63 "2 ^ 63" "2 ^ 52"] round64_value [of 63 "2 ^ 63 + 2 ^ 11" "2 ^ 52 + 1"]
    round64_value [of 63 "2 ^ 63 + 2 ^ 12" "2 ^ 52 + 2"]
    round64_value [of 70 "2 ^ 70" "2 ^ 52"] round64_value [of 70 "2 ^ 70 + 2 ^ 18" "2 ^ 52 + 1"]
  by simp_all

theorem positive_top_kept_witness:
  "0 < l_y pageCaptionLine \<and> l_y pageCaptionLine \<le> 2 ^ 63 \<and>
   round64 (l_y pageCaptionLine) = l_y pageCaptionLine \<and>
   round64 (l_bottom pageIntroLine) = l_bottom pageIntroLine \<and>
   round64 (l_bottom pageCaptionLine) = l_bottom pageCaptionLine \<and>
   cropHeight64 [pageIntroLine, pageCaptionLine] pageCaptionLine = 485 \<and>
   0 < cropHeight64 [pageIntroLine, pageCaptionLine] pageCaptionLine \<and>
   \<not> heightDiscard64 [pageIntroLine, pageCaptionLine] pageCaptionLine \<and>
   l_y lastKeptCaption = 2 ^ 63 \<and> round64 (l_y lastKeptCaption) = l_y lastKeptCaption \<and>
   round64 (l_bottom lastKeptCaption) = l_bottom lastKeptCaption \<and>
   0 < cropHeight64 [lastKeptCaption] lastKeptCaption \<and>
   \<not> heightDiscard64 [lastKeptCaption] lastKeptCaption"
proof -
  have y: "0 < l_y pageCaptionLine" and b: "l_y pageCaptionLine \<le> 2 ^ 63"
    by (simp_all add: pageCaptionLine_def)
  have r: "round64 (l_y pageCaptionLine) = l_y pageCaptionLine"
    by (simp add: pageCaptionLine_def round64_examples)
  have r1: "round64 (l_bottom pageIntroLine) = l_bottom pageIntroLine"
    and r2: "round64 (l_bottom pageCaptionLine) = l_bottom pageCaptionLine"
    by (simp_all add: line_defs round64_examples2)
  have rs: "\<forall>l \<in> set [pageIntroLine, pageCaptionLine]. round64 (l_bottom l) = l_bottom l"
    using r1 r2 by simp
  have y2: "0 < l_y lastKeptCaption" and b2: "l_y lastKeptCaption \<le> 2 ^ 63"
    and v2: "l_y lastKeptCaption = 2 ^ 63"
    by (simp_all add: lastKeptCaption_def)
  have q: "round64 (l_y lastKeptCaption) = l_y lastKeptCaption"
    and q1: "round64 (l_bottom lastKeptCaption) = l_bottom lastKeptCaption"
    using round64_big by (simp_all add: lastKeptCaption_def)
  have qs: "\<forall>l \<in> set [lastKeptCaption]. round64 (l_bottom l) = l_bottom l"
    using q1 by simp
  show ?thesis
    using positive_top_kept [OF y b r rs] positive_top_kept [OF y2 b2 q qs]
      y b r r1 r2 example_height64 v2 q q1
    by blast
qed

lemma round64_near_2_70:
  assumes "0 < c" and "c \<le> 600"
  shows "round64 (2 ^ 70 - c) = 2 ^ 70"
proof -
  have "round64 (2 ^ 70 - c) = of_int (2 ^ 53) * 2 powr (of_int 69 - 52)"
  proof (rule round64_value)
    show "2 powr of_int 69 \<le> \<bar>2 ^ 70 - c\<bar>"
      using assms by simp
    show "\<bar>2 ^ 70 - c\<bar> < 2 powr (of_int 69 + 1)"
      using assms by simp
    show "\<bar>(2 ^ 70 - c) / 2 powr (of_int 69 - 52) - of_int (2 ^ 53)\<bar> < 1 / 2"
      using assms by (simp add: field_simps)
  qed
  then show ?thesis by simp
qed

lemma round64_near_edge:
  assumes "0 < c" and "c \<le> 600"
  shows "round64 (2 ^ 63 + 2 ^ 11 - c) = 2 ^ 63 + 2 ^ 11"
proof -
  have "round64 (2 ^ 63 + 2 ^ 11 - c) = of_int (2 ^ 52 + 1) * 2 powr (of_int 63 - 52)"
  proof (rule round64_value)
    show "2 powr of_int 63 \<le> \<bar>2 ^ 63 + 2 ^ 11 - c\<bar>"
      using assms by simp
    show "\<bar>2 ^ 63 + 2 ^ 11 - c\<bar> < 2 powr (of_int 63 + 1)"
      using assms by simp
    show "\<bar>(2 ^ 63 + 2 ^ 11 - c) / 2 powr (of_int 63 - 52) - of_int (2 ^ 52 + 1)\<bar> < 1 / 2"
      using assms by (simp add: field_simps)
  qed
  then show ?thesis by simp
qed

text \<open>
  Without the bound the height test does skip a caption whose top Y is positive. The
  binary64 numbers between 2^63 and 2^64 are 2^11 apart. At the first of them above
  2^63, with no line above, the differences with 600 and with 450 both round back to the
  top Y itself: the first window is 0, the corrected top is the top Y again and the
  height is 0. The same happens at a top Y of 2^70, where the numbers below are 2^17
  apart.
\<close>

theorem far_caption_dropped:
  "0 < l_y edgeCaption \<and> round64 (l_y edgeCaption) = l_y edgeCaption \<and>
   round64 (l_bottom edgeCaption) = l_bottom edgeCaption \<and>
   cropHeight64 [edgeCaption] edgeCaption = 0 \<and> heightDiscard64 [edgeCaption] edgeCaption \<and>
   0 < l_y farCaption \<and> round64 (l_y farCaption) = l_y farCaption \<and>
   round64 (l_bottom farCaption) = l_bottom farCaption \<and>
   cropHeight64 [farCaption] farCaption = 0 \<and> heightDiscard64 [farCaption] farCaption"
proof -
  have a: "linesAbove [farCaption] (2 ^ 70) = []"
    by (simp add: linesAbove_def farCaption_def)
  have r600: "round64 (2 ^ 70 - 600) = 2 ^ 70" and r450: "round64 (2 ^ 70 - 450) = 2 ^ 70"
    by (rule round64_near_2_70; simp)+
  have f: "cropHeight64 [farCaption] farCaption = 0"
    using a r600 r450
    by (simp add: cropHeight64_def finalCropTop64_def initialCropTop64_def Let_def
        round64_zero farCaption_def)
  have a2: "linesAbove [edgeCaption] (2 ^ 63 + 2 ^ 11) = []"
    by (simp add: linesAbove_def edgeCaption_def)
  have e600: "round64 (2 ^ 63 + 2 ^ 11 - 600) = 2 ^ 63 + 2 ^ 11"
    and e450: "round64 (2 ^ 63 + 2 ^ 11 - 450) = 2 ^ 63 + 2 ^ 11"
    by (rule round64_near_edge; simp)+
  have e: "cropHeight64 [edgeCaption] edgeCaption = 0"
    using a2 e600 e450
    by (simp add: cropHeight64_def finalCropTop64_def initialCropTop64_def Let_def
        round64_zero edgeCaption_def)
  have rf: "round64 (l_y farCaption) = l_y farCaption"
    "round64 (l_bottom farCaption) = l_bottom farCaption"
    using round64_big by (simp_all add: farCaption_def)
  have re: "round64 (l_y edgeCaption) = l_y edgeCaption"
    "round64 (l_bottom edgeCaption) = l_bottom edgeCaption"
    using round64_big by (simp_all add: edgeCaption_def)
  have p: "0 < l_y farCaption" "0 < l_y edgeCaption"
    by (simp_all add: farCaption_def edgeCaption_def)
  show ?thesis
    using f e rf re p by (simp add: heightDiscard64_def)
qed

section \<open>Line reconstruction\<close>

lemma mergeText_prefix: "mergeText t p rest = t @ mergeText [] p rest"
proof (induction rest arbitrary: t p)
  case Nil
  show ?case by simp
next
  case (Cons c rest)
  let ?sep = "if i_x c - i_right p > 5 then lit '' '' else []"
  have "mergeText t p (c # rest) = mergeText (t @ ?sep @ i_str c) c rest"
    by (simp add: Let_def)
  also have "\<dots> = (t @ ?sep @ i_str c) @ mergeText [] c rest"
    by (rule Cons.IH)
  also have "\<dots> = t @ ((?sep @ i_str c) @ mergeText [] c rest)"
    by simp
  also have "(?sep @ i_str c) @ mergeText [] c rest = mergeText (?sep @ i_str c) c rest"
    by (rule Cons.IH [symmetric])
  also have "mergeText (?sep @ i_str c) c rest = mergeText [] p (c # rest)"
    by (simp add: Let_def)
  finally show ?case .
qed

lemma mergeText_split:
  "mergeText t p (xs @ b # post) =
     mergeText t p xs @ (if i_x b - i_right (last (p # xs)) > 5 then lit '' '' else [])
       @ mergeText (i_str b) b post"
proof (induction xs arbitrary: t p)
  case Nil
  let ?sep = "if i_x b - i_right p > 5 then lit '' '' else []"
  have "mergeText t p (b # post) = mergeText (t @ ?sep @ i_str b) b post"
    by (simp add: Let_def)
  also have "\<dots> = (t @ ?sep @ i_str b) @ mergeText [] b post"
    by (rule mergeText_prefix)
  also have "\<dots> = t @ ?sep @ (i_str b @ mergeText [] b post)"
    by simp
  also have "i_str b @ mergeText [] b post = mergeText (i_str b) b post"
    by (rule mergeText_prefix [symmetric])
  finally show ?case by simp
next
  case (Cons c xs)
  show ?case
    using Cons.IH [of "(if i_x c - i_right p > 5 then t @ lit '' '' else t) @ i_str c" c]
    by (simp add: Let_def)
qed

lemma mergeLine_sorted:
  assumes "sorted (map i_x (first # rest))"
  shows "\<exists>l. mergeLine (first # rest) = Inr l \<and> l_text l = mergeText (i_str first) first rest"
proof -
  have "sort_key i_x (first # rest) = first # rest"
    using assms by (rule sort_key_id_if_sorted)
  then show ?thesis
    by (simp add: mergeLine_def Let_def)
qed

lemma mergeLine_text:
  assumes "sort_key i_x items = first # rest"
  shows "\<exists>l. mergeLine items = Inr l \<and> l_text l = mergeText (i_str first) first rest"
  using assms by (simp add: mergeLine_def Let_def)

text \<open>
  C6. The runs of a line are merged in left-to-right order. Between two consecutive runs
  one space is inserted exactly when the left X of the second minus the right X of the
  first exceeds 5, and nothing is inserted otherwise: the text of the line is the text
  merged up to the first of the two, the space or nothing, and the text merged from the
  second on. The text of a line of one run is the text of that run.
\<close>

theorem merge_gap_space:
  "(sort_key i_x items = pre @ a # b # post \<longrightarrow>
      (\<exists>l l1 l2. mergeLine items = Inr l \<and> mergeLine (pre @ [a]) = Inr l1 \<and>
         mergeLine (b # post) = Inr l2 \<and>
         l_text l = l_text l1 @ (if i_x b - i_right a > 5 then lit '' '' else []) @ l_text l2)) \<and>
   (\<exists>l. mergeLine [a] = Inr l \<and> l_text l = i_str a)"
proof (intro conjI impI)
  show "\<exists>l. mergeLine [a] = Inr l \<and> l_text l = i_str a"
    using mergeLine_sorted [of a "[]"] by simp
next
  assume s: "sort_key i_x items = pre @ a # b # post"
  have srt: "sorted (map i_x (pre @ a # b # post))"
    using sorted_sort_key [of i_x items] s by simp
  have srt2: "sorted (map i_x (b # post))"
    using srt by (simp add: sorted_append)
  have srt1: "sorted (map i_x (pre @ [a]))"
    using srt by (auto simp: sorted_append)
  obtain l2 where l2: "mergeLine (b # post) = Inr l2" "l_text l2 = mergeText (i_str b) b post"
    using mergeLine_sorted [OF srt2] by blast
  show "\<exists>l l1 l2. mergeLine items = Inr l \<and> mergeLine (pre @ [a]) = Inr l1 \<and>
         mergeLine (b # post) = Inr l2 \<and>
         l_text l = l_text l1 @ (if i_x b - i_right a > 5 then lit '' '' else []) @ l_text l2"
  proof (cases pre)
    case Nil
    obtain l where l: "mergeLine items = Inr l" "l_text l = mergeText (i_str a) a (b # post)"
      using mergeLine_text [of items a "b # post"] s Nil by auto
    obtain l1 where l1: "mergeLine [a] = Inr l1" "l_text l1 = i_str a"
      using mergeLine_sorted [of a "[]"] by auto
    have "l_text l = l_text l1 @ (if i_x b - i_right a > 5 then lit '' '' else []) @ l_text l2"
      using mergeText_split [of "i_str a" a "[]" b post] l l1 l2 by simp
    then show ?thesis using l l1 l2 Nil by auto
  next
    case (Cons f pre1)
    obtain l where l: "mergeLine items = Inr l"
      "l_text l = mergeText (i_str f) f ((pre1 @ [a]) @ b # post)"
      using mergeLine_text [of items f "pre1 @ a # b # post"] s Cons by auto
    obtain l1 where l1: "mergeLine (f # pre1 @ [a]) = Inr l1"
      "l_text l1 = mergeText (i_str f) f (pre1 @ [a])"
      using mergeLine_sorted [of f "pre1 @ [a]"] srt1 Cons by auto
    have "l_text l = l_text l1 @ (if i_x b - i_right a > 5 then lit '' '' else []) @ l_text l2"
      using mergeText_split [of "i_str f" f "pre1 @ [a]" b post] l l1 l2 by simp
    then show ?thesis using l l1 l2 Cons by auto
  qed
qed

theorem merge_gap_space_witness:
  "sort_key i_x [runOne, runFig, runUre] = [runFig] @ runUre # runOne # [] \<and>
   i_x runOne - i_right runUre = 6 \<and>
   (\<exists>l. mergeLine [runOne, runFig, runUre] = Inr l \<and> l_text l = lit ''Figure 1'') \<and>
   sort_key i_x [runFig, runUre] = [] @ runFig # runUre # [] \<and>
   i_x runUre - i_right runFig = 2 \<and>
   (\<exists>l. mergeLine [runFig, runUre] = Inr l \<and> l_text l = lit ''Figure'')"
proof -
  have s1: "sort_key i_x [runOne, runFig, runUre] = [runFig] @ runUre # runOne # []"
    by (simp add: runFig_def runUre_def runOne_def)
  have s2: "sort_key i_x [runFig, runUre] = [] @ runFig # runUre # []"
    by (simp add: runFig_def runUre_def)
  have g1: "i_x runOne - i_right runUre = 6" and g2: "i_x runUre - i_right runFig = 2"
    by (simp_all add: runFig_def runUre_def runOne_def)
  have a: "\<exists>l. mergeLine [runOne, runFig, runUre] = Inr l \<and> l_text l = lit ''Figure 1''"
    using merge_gap_space [of "[runOne, runFig, runUre]" "[runFig]" runUre runOne "[]"] s1 g1
    by (auto simp: example_merge lit_def)
  have b: "\<exists>l. mergeLine [runFig, runUre] = Inr l \<and> l_text l = lit ''Figure''"
    using merge_gap_space [of "[runFig, runUre]" "[]" runFig runUre "[]"] s2 g2
    by (auto simp: example_merge lit_def)
  show ?thesis using s1 s2 g1 g2 a b by blast
qed

lemma mergeLine_total: "items \<noteq> [] \<Longrightarrow> \<exists>l. mergeLine items = Inr l"
proof -
  assume "items \<noteq> []"
  then have "length (sort_key i_x items) \<noteq> 0" by simp
  then obtain first rest where "sort_key i_x items = first # rest"
    by (cases "sort_key i_x items") auto
  then show ?thesis using mergeLine_text by blast
qed

lemma groupStep_total:
  "\<exists>ls1 cur1. groupStep (ls, cur) a = Inr (ls1, cur1) \<and> cur1 \<noteq> [] \<and> last cur1 = a"
proof (cases "cur = []")
  case True
  then show ?thesis by simp
next
  case False
  then obtain l where "mergeLine cur = Inr l" using mergeLine_total by blast
  then show ?thesis using False by (simp add: Let_def)
qed

lemma forEachItem_snoc:
  "forEachItem st (xs @ [a]) =
     (case forEachItem st xs of Inl e \<Rightarrow> Inl e | Inr st1 \<Rightarrow> groupStep st1 a)"
proof (induction xs arbitrary: st)
  case Nil
  show ?case by (simp split: sum.splits)
next
  case (Cons x xs)
  show ?case by (simp add: Cons.IH split: sum.splits)
qed

lemma forEachItem_total:
  "\<exists>ls1 cur1. forEachItem (ls, cur) xs = Inr (ls1, cur1) \<and>
     (xs \<noteq> [] \<longrightarrow> cur1 \<noteq> [] \<and> last cur1 = last xs) \<and> (xs = [] \<longrightarrow> cur1 = cur \<and> ls1 = ls)"
proof (induction xs rule: rev_induct)
  case Nil
  show ?case by simp
next
  case (snoc a xs)
  obtain ls1 cur1 where p: "forEachItem (ls, cur) xs = Inr (ls1, cur1)"
    using snoc.IH by blast
  obtain ls2 cur2 where q: "groupStep (ls1, cur1) a = Inr (ls2, cur2)" "cur2 \<noteq> []" "last cur2 = a"
    using groupStep_total by blast
  show ?case using p q by (simp add: forEachItem_snoc)
qed

lemma buildLines_total: "\<exists>lines. buildLines items = Inr lines"
proof -
  obtain ls cur where p: "forEachItem ([], []) items = Inr (ls, cur)"
    using forEachItem_total by blast
  show ?thesis
  proof (cases "cur = []")
    case True
    then show ?thesis using p by (simp add: buildLines_def)
  next
    case False
    then obtain l where "mergeLine cur = Inr l" using mergeLine_total by blast
    then show ?thesis using p False by (simp add: buildLines_def)
  qed
qed

text \<open>
  C7. The grouping loop never throws, and after any run \<open>a\<close> the current line ends with
  \<open>a\<close>. The next run \<open>b\<close> joins that line exactly when its baseline differs from the
  baseline of \<open>a\<close> by strictly less than 8; otherwise the current line is merged and
  closed, and \<open>b\<close> starts a new line.
\<close>

theorem line_grouping_tolerance:
  "\<exists>ls cur l. forEachItem ([], []) (pre @ [a]) = Inr (ls, cur) \<and> cur \<noteq> [] \<and> last cur = a \<and>
      mergeLine cur = Inr l \<and>
      forEachItem ([], []) (pre @ [a, b]) =
        Inr (if \<bar>i_bottom b - i_bottom a\<bar> < 8 then (ls, cur @ [b]) else (ls @ [l], [b]))"
proof -
  obtain ls cur where p: "forEachItem ([], []) (pre @ [a]) = Inr (ls, cur)"
    "cur \<noteq> []" "last cur = a"
    using forEachItem_total [of "[]" "[]" "pre @ [a]"] by auto
  obtain l where l: "mergeLine cur = Inr l"
    using mergeLine_total p by blast
  have lst: "cur ! (length cur - Suc 0) = a"
    using p by (simp add: last_conv_nth)
  have "forEachItem ([], []) ((pre @ [a]) @ [b]) = groupStep (ls, cur) b"
    using p by (simp only: forEachItem_snoc [of _ "pre @ [a]" b] sum.case)
  then have "forEachItem ([], []) (pre @ [a, b]) =
        Inr (if \<bar>i_bottom b - i_bottom a\<bar> < 8 then (ls, cur @ [b]) else (ls @ [l], [b]))"
    using p l lst by (simp add: Let_def)
  then show ?thesis using p l by blast
qed

theorem line_grouping_tolerance_witness:
  "\<bar>i_bottom runUre - i_bottom runFig\<bar> = 0 \<and>
   forEachItem ([], []) [runFig, runUre] = Inr ([], [runFig, runUre]) \<and>
   \<bar>i_bottom runBelow - i_bottom runFig\<bar> = 8 \<and>
   forEachItem ([], []) [runFig, runBelow] =
     Inr ([\<lparr>l_text = lit ''Fig'', l_x = 72, l_y = 600, l_bottom = 620, l_height = 20\<rparr>], [runBelow])"
proof -
  have d1: "\<bar>i_bottom runUre - i_bottom runFig\<bar> = 0"
    and d2: "\<bar>i_bottom runBelow - i_bottom runFig\<bar> = 8"
    by (simp_all add: runFig_def runUre_def runBelow_def)
  have st: "forEachItem ([], []) ([] @ [runFig]) = Inr ([], [runFig])"
    by simp
  have a: "forEachItem ([], []) [runFig, runUre] = Inr ([], [runFig, runUre])"
    using line_grouping_tolerance [of "[]" runFig runUre] st d1
    by (auto simp del: forEachItem.simps groupStep.simps)
  have b: "forEachItem ([], []) [runFig, runBelow] =
     Inr ([\<lparr>l_text = lit ''Fig'', l_x = 72, l_y = 600, l_bottom = 620, l_height = 20\<rparr>], [runBelow])"
    using line_grouping_tolerance [of "[]" runFig runBelow] st d2
    by (auto simp: example_merge simp del: forEachItem.simps groupStep.simps)
  show ?thesis using d1 d2 a b by blast
qed

section \<open>Pages and the document loop\<close>

lemma cropLoop_prefix:
  "cropLoop n pg lines k caps (figs0 @ figs) =
     (fst (cropLoop n pg lines k caps figs), figs0 @ snd (cropLoop n pg lines k caps figs))"
proof (induction caps arbitrary: k figs)
  case Nil
  show ?case by simp
next
  case (Cons caption rest)
  show ?case
    using Cons.IH [of "Suc k" figs] Cons.IH [of "Suc k" "figs @ [x]" for x]
    by (simp add: Let_def split: option.splits crop_outcome.splits prod.splits)
qed

lemma processPage_prefix:
  "processPage es n pg (figs0 @ figs) = figs0 @ processPage es n pg figs"
  by (simp add: processPage_def pageBody_def Let_def cropLoop_prefix
      split: option.splits sum.splits)

lemma processPage_start: "processPage es n pg figs = figs @ processPage es n pg []"
  using processPage_prefix [of es n pg figs "[]"] by simp

lemma pageLoop_prefix:
  "pageLoop es n pages (figs0 @ figs) = figs0 @ pageLoop es n pages figs"
  by (induction pages arbitrary: n figs) (simp_all add: processPage_prefix)

lemma pageLoop_append:
  "pageLoop es n (xs @ ys) figs = pageLoop es (n + length xs) ys (pageLoop es n xs figs)"
  by (induction xs arbitrary: n figs) simp_all

lemma pageLoop_concat:
  "pageLoop es n pages figs =
     figs @ concat (map (\<lambda>(pageNum, pg). processPage es pageNum pg []) (enumerate n pages))"
proof (induction pages arbitrary: n figs)
  case Nil
  show ?case by simp
next
  case (Cons pg pages)
  have "pageLoop es n (pg # pages) figs = pageLoop es (Suc n) pages (processPage es n pg figs)"
    by simp
  also have "\<dots> = processPage es n pg figs @
      concat (map (\<lambda>(pageNum, pg). processPage es pageNum pg []) (enumerate (Suc n) pages))"
    by (rule Cons.IH)
  also have "processPage es n pg figs = figs @ processPage es n pg []"
    by (rule processPage_start)
  finally show ?case by simp
qed

lemma processPage_fails:
  assumes "textContent pg = None \<or> \<not> canvasContext pg \<or> \<not> renders pg"
  shows "processPage es n pg figs = figs"
  using assms
  by (auto simp: processPage_def pageBody_def Let_def split: option.splits sum.splits)

text \<open>
  C8. The figures returned are those of page 1, then those of page 2, and so on: each
  page is run once, in document order, on its own. A page whose text cannot be fetched,
  whose canvas gives no context or whose rendering fails adds nothing, and the result is
  what the pages before it and the pages after it yield under their own page numbers.
\<close>

theorem page_failure_not_fatal:
  "extractImagesFromPdf es (Some pages) =
     Inr (concat (map (\<lambda>(pageNum, pg). processPage es pageNum pg []) (enumerate 1 pages))) \<and>
   (textContent bad = None \<or> \<not> canvasContext bad \<or> \<not> renders bad \<longrightarrow>
      processPage es pageNum bad figs = figs \<and>
      extractImagesFromPdf es (Some (before @ bad # after)) =
        Inr (pageLoop es 1 before [] @ pageLoop es (length before + 2) after []))"
proof (intro conjI impI)
  show "extractImagesFromPdf es (Some pages) =
     Inr (concat (map (\<lambda>(pageNum, pg). processPage es pageNum pg []) (enumerate 1 pages)))"
    using pageLoop_concat [of es 1 pages "[]"] by (simp add: extractImagesFromPdf_def)
next
  assume b: "textContent bad = None \<or> \<not> canvasContext bad \<or> \<not> renders bad"
  show "processPage es pageNum bad figs = figs"
    using b by (rule processPage_fails)
  have "pageLoop es 1 (before @ bad # after) [] =
        pageLoop es (1 + length before) (bad # after) (pageLoop es 1 before [])"
    by (rule pageLoop_append)
  also have "\<dots> = pageLoop es (length before + 2) after (pageLoop es 1 before [])"
    using processPage_fails [OF b] by simp
  also have "\<dots> = pageLoop es 1 before [] @ pageLoop es (length before + 2) after []"
    using pageLoop_prefix [of es "length before + 2" after "pageLoop es 1 before []" "[]"] by simp
  finally show "extractImagesFromPdf es (Some (before @ bad # after)) =
        Inr (pageLoop es 1 before [] @ pageLoop es (length before + 2) after [])"
    by (simp add: extractImagesFromPdf_def)
qed

theorem page_failure_not_fatal_witness:
  "textContent failedPage = None \<and>
   extractImagesFromPdf keepOrder (Some ([goodPage] @ failedPage # [goodPage])) =
     Inr [figureOne 1, figureOne 3] \<and>
   img_id (figureOne 3) = lit ''3-Figure 1''"
proof -
  have b: "textContent failedPage = None"
    by (simp add: failedPage_def)
  have "extractImagesFromPdf keepOrder (Some ([goodPage] @ failedPage # [goodPage])) =
      Inr (pageLoop keepOrder 1 [goodPage] [] @ pageLoop keepOrder (length [goodPage] + 2) [goodPage] [])"
    using page_failure_not_fatal [where bad = failedPage and es = keepOrder
        and before = "[goodPage]" and after = "[goodPage]"] b
    by blast
  then have "extractImagesFromPdf keepOrder (Some ([goodPage] @ failedPage # [goodPage])) =
     Inr [figureOne 1, figureOne 3]"
    by (simp add: example_goodPage eval_nat_numeral)
  moreover have "img_id (figureOne 3) = lit ''3-Figure 1''"
    by (simp add: figureOne_def decimal_digit lit_def)
  ultimately show ?thesis using b by blast
qed

lemma cropLoop_origin:
  "f \<in> set (snd (cropLoop n pg lines k caps figs)) \<Longrightarrow>
   f \<in> set figs \<or>
   (\<exists>caption \<in> set caps. \<exists>digits j.
      captionRegex (l_text caption) = Some digits \<and>
      fst (cropRegion lines caption) < snd (cropRegion lines caption) \<and>
      cropCanvas pg j (fst (cropRegion lines caption))
        (snd (cropRegion lines caption) - fst (cropRegion lines caption)) = DataURL (img_src f) \<and>
      img_label f = figureLabel digits \<and>
      img_id f = decimal n @ lit ''-'' @ figureLabel digits \<and>
      img_page f = n)"
proof (induction caps arbitrary: k figs)
  case Nil
  then show ?case by simp
next
  case (Cons caption rest)
  show ?case
  proof (cases "captionRegex (l_text caption)")
    case None
    then show ?thesis using Cons.IH [of "Suc k" figs] Cons.prems by auto
  next
    case (Some digits)
    obtain top bot where r: "cropRegion lines caption = (top, bot)"
      by (cases "cropRegion lines caption")
    show ?thesis
    proof (cases "bot - top \<le> 0")
      case True
      then show ?thesis using Cons.IH [of "Suc k" figs] Cons.prems Some r by auto
    next
      case False
      show ?thesis
      proof (cases "cropCanvas pg k top (bot - top)")
        case NoContext
        then show ?thesis using Cons.IH [of "Suc k" figs] Cons.prems Some r False by auto
      next
        case CropThrows
        then show ?thesis using Cons.prems Some r False by auto
      next
        case (DataURL src)
        let ?fig = "\<lparr>img_id = decimal n @ lit ''-'' @ figureLabel digits,
                  img_label = figureLabel digits, img_src = src, img_page = n\<rparr>"
        have "f \<in> set (snd (cropLoop n pg lines (Suc k) rest (figs @ [?fig])))"
          using Cons.prems Some r False DataURL by (simp add: Let_def)
        then have "f \<in> set (figs @ [?fig]) \<or>
           (\<exists>caption \<in> set rest. \<exists>digits j.
              captionRegex (l_text caption) = Some digits \<and>
              fst (cropRegion lines caption) < snd (cropRegion lines caption) \<and>
              cropCanvas pg j (fst (cropRegion lines caption))
                (snd (cropRegion lines caption) - fst (cropRegion lines caption)) = DataURL (img_src f) \<and>
              img_label f = figureLabel digits \<and>
              img_id f = decimal n @ lit ''-'' @ figureLabel digits \<and>
              img_page f = n)"
          by (rule Cons.IH)
        moreover have "?thesis" if "f = ?fig"
        proof -
          have "captionRegex (l_text caption) = Some digits \<and>
              fst (cropRegion lines caption) < snd (cropRegion lines caption) \<and>
              cropCanvas pg k (fst (cropRegion lines caption))
                (snd (cropRegion lines caption) - fst (cropRegion lines caption)) = DataURL (img_src f) \<and>
              img_label f = figureLabel digits \<and>
              img_id f = decimal n @ lit ''-'' @ figureLabel digits \<and>
              img_page f = n"
            using Some r False DataURL that by simp
          then show ?thesis by (intro disjI2 bexI [of _ caption] exI [of _ digits] exI [of _ k]) simp_all
        qed
        moreover have "?thesis" if "f \<in> set figs"
          using that by simp
        moreover have "?thesis" if "\<exists>caption \<in> set rest. \<exists>digits j.
              captionRegex (l_text caption) = Some digits \<and>
              fst (cropRegion lines caption) < snd (cropRegion lines caption) \<and>
              cropCanvas pg j (fst (cropRegion lines caption))
                (snd (cropRegion lines caption) - fst (cropRegion lines caption)) = DataURL (img_src f) \<and>
              img_label f = figureLabel digits \<and>
              img_id f = decimal n @ lit ''-'' @ figureLabel digits \<and>
              img_page f = n"
        proof -
          from that obtain c where "c \<in> set rest" "\<exists>digits j.
              captionRegex (l_text c) = Some digits \<and>
              fst (cropRegion lines c) < snd (cropRegion lines c) \<and>
              cropCanvas pg j (fst (cropRegion lines c))
                (snd (cropRegion lines c) - fst (cropRegion lines c)) = DataURL (img_src f) \<and>
              img_label f = figureLabel digits \<and>
              img_id f = decimal n @ lit ''-'' @ figureLabel digits \<and>
              img_page f = n" by blast
          then show ?thesis by (intro disjI2 bexI [of _ c]) simp_all
        qed
        ultimately show ?thesis by (simp only: set_append set_simps Un_iff insert_iff empty_iff) blast
      qed
    qed
  qed
qed

lemma processPage_origin:
  assumes "f \<in> set (processPage es n pg figs)"
  shows "f \<in> set figs \<or> figureFrom es n pg f"
proof (cases "textContent pg")
  case None
  then show ?thesis using assms by (simp add: processPage_def pageBody_def)
next
  case (Some raw)
  show ?thesis
  proof (cases "buildLines (es compareItems (viewportItems raw))")
    case (Inl e)
    then show ?thesis using assms Some by (simp add: processPage_def pageBody_def)
  next
    case (Inr lines)
    let ?caps = "filter (\<lambda>l. captionRegex (l_text l) \<noteq> None) lines"
    show ?thesis
    proof (cases "?caps \<noteq> [] \<and> canvasContext pg \<and> renders pg")
      case False
      then show ?thesis using assms Some Inr
        by (auto simp: processPage_def pageBody_def Let_def split: if_splits)
    next
      case True
      then have "f \<in> set (snd (cropLoop n pg lines 0 ?caps figs))"
        using assms Some Inr by (simp add: processPage_def pageBody_def Let_def)
      from cropLoop_origin [OF this] show ?thesis
      proof
        assume "f \<in> set figs" then show ?thesis by simp
      next
        assume "\<exists>caption \<in> set ?caps. \<exists>digits j.
          captionRegex (l_text caption) = Some digits \<and>
          fst (cropRegion lines caption) < snd (cropRegion lines caption) \<and>
          cropCanvas pg j (fst (cropRegion lines caption))
            (snd (cropRegion lines caption) - fst (cropRegion lines caption)) = DataURL (img_src f) \<and>
          img_label f = figureLabel digits \<and>
          img_id f = decimal n @ lit ''-'' @ figureLabel digits \<and>
          img_page f = n"
        then obtain caption digits j where c: "caption \<in> set lines"
          "captionRegex (l_text caption) = Some digits"
          "fst (cropRegion lines caption) < snd (cropRegion lines caption)"
          "cropCanvas pg j (fst (cropRegion lines caption))
            (snd (cropRegion lines caption) - fst (cropRegion lines caption)) = DataURL (img_src f)"
          "img_label f = figureLabel digits"
          "img_id f = decimal n @ lit ''-'' @ figureLabel digits"
          "img_page f = n"
          by auto
        have "figureFrom es n pg f"
          unfolding figureFrom_def using Some Inr True c by blast
        then show ?thesis by simp
      qed
    qed
  qed
qed

lemma pageLoop_origin:
  "f \<in> set (pageLoop es n pages figs) \<Longrightarrow>
   f \<in> set figs \<or> (\<exists>i < length pages. figureFrom es (n + i) (pages ! i) f)"
proof (induction pages arbitrary: n figs)
  case Nil
  then show ?case by simp
next
  case (Cons pg pages)
  from Cons.prems have "f \<in> set (pageLoop es (Suc n) pages (processPage es n pg figs))"
    by simp
  from Cons.IH [OF this] show ?case
  proof
    assume "f \<in> set (processPage es n pg figs)"
    from processPage_origin [OF this] show ?thesis by auto
  next
    assume "\<exists>i<length pages. figureFrom es (Suc n + i) (pages ! i) f"
    then obtain i where "i < length pages" "figureFrom es (Suc n + i) (pages ! i) f" by blast
    then have "Suc i < length (pg # pages) \<and> figureFrom es (n + Suc i) ((pg # pages) ! Suc i) f"
      by simp
    then show ?thesis by blast
  qed
qed

lemma extract_origin:
  assumes "extractImagesFromPdf es doc = Inr figs" and "f \<in> set figs"
  shows "\<exists>pages i. doc = Some pages \<and> i < length pages \<and> figureFrom es (Suc i) (pages ! i) f"
proof (cases doc)
  case None
  then show ?thesis using assms by (simp add: extractImagesFromPdf_def)
next
  case (Some pages)
  then have "f \<in> set (pageLoop es 1 pages [])"
    using assms by (auto simp: extractImagesFromPdf_def)
  from pageLoop_origin [OF this] Some show ?thesis by auto
qed

lemma cropLoop_skip:
  assumes "snd (cropRegion lines caption) \<le> fst (cropRegion lines caption)"
  shows "cropLoop n pg lines k (caption # rest) figs = cropLoop n pg lines (Suc k) rest figs"
  using assms by (auto simp: Let_def split: option.splits prod.splits)

text \<open>
  C5. Every figure that is returned was cropped from a region of strictly positive
  height: it stems from a caption line of one of the pages whose crop bottom minus crop
  top is positive, and its image is the crop canvas of that region. A caption whose final
  crop top is greater than or equal to its crop bottom pushes no figure and raises
  nothing: the loop goes on with the captions that follow on an unchanged list, and a
  page whose only caption it is ends without an exception.
\<close>

theorem degenerate_crop_discarded:
  "(extractImagesFromPdf es doc = Inr figs \<and> f \<in> set figs \<longrightarrow>
      (\<exists>pages i raw lines caption k.
          doc = Some pages \<and> i < length pages \<and> textContent (pages ! i) = Some raw \<and>
          buildLines (es compareItems (viewportItems raw)) = Inr lines \<and>
          caption \<in> set lines \<and> captionRegex (l_text caption) \<noteq> None \<and>
          0 < snd (cropRegion lines caption) - fst (cropRegion lines caption) \<and>
          cropCanvas (pages ! i) k (fst (cropRegion lines caption))
            (snd (cropRegion lines caption) - fst (cropRegion lines caption)) = DataURL (img_src f))) \<and>
   (fst (cropRegion lines0 caption0) \<ge> snd (cropRegion lines0 caption0) \<longrightarrow>
      cropLoop pageNum pg lines0 k0 (caption0 # rest) figs0 =
        cropLoop pageNum pg lines0 (Suc k0) rest figs0 \<and>
      cropLoop pageNum pg lines0 k0 [caption0] figs0 = (None, figs0))"
proof (intro conjI impI)
  assume a: "extractImagesFromPdf es doc = Inr figs \<and> f \<in> set figs"
  then obtain pages i where p: "doc = Some pages" "i < length pages"
    "figureFrom es (Suc i) (pages ! i) f"
    using extract_origin [of es doc figs f] by blast
  from p(3) obtain raw lines and caption :: Line and ds k where
    "textContent (pages ! i) = Some raw"
    "buildLines (es compareItems (viewportItems raw)) = Inr lines"
    "caption \<in> set lines" "captionRegex (l_text caption) = Some ds"
    "fst (cropRegion lines caption) < snd (cropRegion lines caption)"
    "cropCanvas (pages ! i) k (fst (cropRegion lines caption))
       (snd (cropRegion lines caption) - fst (cropRegion lines caption)) = DataURL (img_src f)"
    unfolding figureFrom_def by blast
  then have "textContent (pages ! i) = Some raw \<and>
          buildLines (es compareItems (viewportItems raw)) = Inr lines \<and>
          caption \<in> set lines \<and> captionRegex (l_text caption) \<noteq> None \<and>
          0 < snd (cropRegion lines caption) - fst (cropRegion lines caption) \<and>
          cropCanvas (pages ! i) k (fst (cropRegion lines caption))
            (snd (cropRegion lines caption) - fst (cropRegion lines caption)) = DataURL (img_src f)"
    by simp
  then show "\<exists>pages i raw lines caption k.
          doc = Some pages \<and> i < length pages \<and> textContent (pages ! i) = Some raw \<and>
          buildLines (es compareItems (viewportItems raw)) = Inr lines \<and>
          caption \<in> set lines \<and> captionRegex (l_text caption) \<noteq> None \<and>
          0 < snd (cropRegion lines caption) - fst (cropRegion lines caption) \<and>
          cropCanvas (pages ! i) k (fst (cropRegion lines caption))
            (snd (cropRegion lines caption) - fst (cropRegion lines caption)) = DataURL (img_src f)"
    using p(1,2) by blast
next
  assume d: "fst (cropRegion lines0 caption0) \<ge> snd (cropRegion lines0 caption0)"
  show "cropLoop pageNum pg lines0 k0 (caption0 # rest) figs0 =
        cropLoop pageNum pg lines0 (Suc k0) rest figs0"
    using d by (rule cropLoop_skip)
  show "cropLoop pageNum pg lines0 k0 [caption0] figs0 = (None, figs0)"
    using cropLoop_skip [OF d, of pageNum pg k0 "[]" figs0] by simp
qed

theorem degenerate_crop_discarded_witness:
  "cropRegion [clippedLine, pageCaptionLine] clippedLine = (0, - 5) \<and>
   cropLoop 1 clippedPage [clippedLine, pageCaptionLine] 0 [clippedLine] [] = (None, []) \<and>
   cropLoop 1 clippedPage [clippedLine, pageCaptionLine] 0 [clippedLine, pageCaptionLine] [] =
     (None, [figureOne 1]) \<and>
   extractImagesFromPdf keepOrder (Some [clippedPage, goodPage]) = Inr [figureOne 1, figureOne 2] \<and>
   (\<exists>pages i raw lines caption k.
      Some [clippedPage, goodPage] = Some pages \<and> i < length pages \<and>
      textContent (pages ! i) = Some raw \<and>
      buildLines (keepOrder compareItems (viewportItems raw)) = Inr lines \<and>
      caption \<in> set lines \<and> captionRegex (l_text caption) \<noteq> None \<and>
      0 < snd (cropRegion lines caption) - fst (cropRegion lines caption) \<and>
      cropCanvas (pages ! i) k (fst (cropRegion lines caption))
        (snd (cropRegion lines caption) - fst (cropRegion lines caption)) =
        DataURL (img_src (figureOne 1)))"
proof -
  note t = degenerate_crop_discarded [where ?lines0.0 = "[clippedLine, pageCaptionLine]"
      and ?caption0.0 = clippedLine and pageNum = 1 and pg = clippedPage and ?k0.0 = 0
      and ?figs0.0 = "[]" and es = keepOrder and doc = "Some [clippedPage, goodPage]"
      and figs = "[figureOne 1, figureOne 2]" and f = "figureOne 1"]
  have r: "cropRegion [clippedLine, pageCaptionLine] clippedLine = (0, - 5)"
    by (simp add: example_regions)
  have one: "cropLoop 1 clippedPage [clippedLine, pageCaptionLine] (Suc 0) [pageCaptionLine] [] =
     (None, [figureOne 1])"
    by (simp add: example_captions example_regions clippedPage_def pngOf_def figureOne_def
        figureLabel_def lit_def Let_def)
  have a: "cropLoop 1 clippedPage [clippedLine, pageCaptionLine] 0 [clippedLine] [] = (None, [])"
    using t [of "[]"] r by simp
  have b: "cropLoop 1 clippedPage [clippedLine, pageCaptionLine] 0 [clippedLine, pageCaptionLine] [] =
     (None, [figureOne 1])"
    using t [of "[pageCaptionLine]"] r one by simp
  have p: "processPage keepOrder 1 clippedPage [] = [figureOne 1]"
    using b by (simp add: processPage_def pageBody_def clippedPage_def example_lines
        example_captions Let_def)
  have e: "extractImagesFromPdf keepOrder (Some [clippedPage, goodPage]) =
      Inr [figureOne 1, figureOne 2]"
    using p by (simp add: extractImagesFromPdf_def example_goodPage eval_nat_numeral)
  have x: "\<exists>pages i raw lines caption k.
      Some [clippedPage, goodPage] = Some pages \<and> i < length pages \<and>
      textContent (pages ! i) = Some raw \<and>
      buildLines (keepOrder compareItems (viewportItems raw)) = Inr lines \<and>
      caption \<in> set lines \<and> captionRegex (l_text caption) \<noteq> None \<and>
      0 < snd (cropRegion lines caption) - fst (cropRegion lines caption) \<and>
      cropCanvas (pages ! i) k (fst (cropRegion lines caption))
        (snd (cropRegion lines caption) - fst (cropRegion lines caption)) =
        DataURL (img_src (figureOne 1))"
    using t [of "[]"] e by simp
  show ?thesis using r a b e x by blast
qed







section \<open>Caption detection\<close>

lemma matchNumber_digits:
  assumes "matchNumber cs = Some digits"
  shows "digits \<noteq> [] \<and> list_all isDigit digits"
proof -
  have d: "digits = takeWhile isDigit (dropWhile isSep cs)" and n: "digits \<noteq> []"
    using assms by (auto simp: matchNumber_def Let_def split: if_splits)
  have "\<forall>c \<in> set digits. isDigit c"
    using d by (auto dest: set_takeWhileD)
  then show ?thesis using n by (simp add: list_all_iff)
qed

lemma captionRegex_digits:
  assumes "captionRegex t = Some digits"
  shows "digits \<noteq> [] \<and> list_all isDigit digits"
proof -
  have "\<exists>cs. matchNumber cs = Some digits"
    using assms
    by (auto simp: captionRegex_def split: option.splits bind_splits)
  then show ?thesis using matchNumber_digits by blast
qed

lemma takeWhile_digit_stop:
  "rest = [] \<or> \<not> isDigit (hd rest) \<Longrightarrow> takeWhile isDigit rest = []"
  by (cases rest) auto

lemma variants_match:
  assumes "rest = [] \<or> \<not> isDigit (hd rest)"
  shows "captionRegex (lit ''Figure 1'' @ rest) = Some (lit ''1'')"
    and "captionRegex (lit ''Fig. 1'' @ rest) = Some (lit ''1'')"
    and "captionRegex (lit ''fig 1'' @ rest) = Some (lit ''1'')"
    and "captionRegex (lit ''FIGURE.1'' @ rest) = Some (lit ''1'')"
  using takeWhile_digit_stop [OF assms] by (simp_all add: regex_defs)

text \<open>
  C2, as amended. The label of every figure that is returned is \<open>Figure\<close>, a space and
  one or more digits, whichever variant of the token matched. For each caption line that
  begins with one of \<open>Figure 1\<close>, \<open>Fig. 1\<close>, \<open>fig 1\<close>, \<open>FIGURE.1\<close> and does not
  go on with a further digit, the caption pattern matches and the label is
  \<open>Figure 1\<close>.
\<close>

theorem labels_normalized:
  "(extractImagesFromPdf es doc = Inr figs \<and> f \<in> set figs \<longrightarrow>
      (\<exists>digits. digits \<noteq> [] \<and> list_all isDigit digits \<and> img_label f = lit ''Figure '' @ digits)) \<and>
   (captionRegex t = Some digits \<longrightarrow>
      digits \<noteq> [] \<and> list_all isDigit digits \<and> figureLabel digits = lit ''Figure '' @ digits) \<and>
   (v \<in> {lit ''Figure 1'', lit ''Fig. 1'', lit ''fig 1'', lit ''FIGURE.1''} \<and>
    (rest = [] \<or> \<not> isDigit (hd rest)) \<longrightarrow>
      captionRegex (v @ rest) = Some (lit ''1'') \<and> figureLabel (lit ''1'') = lit ''Figure 1'')"
proof (intro conjI impI)
  assume a: "extractImagesFromPdf es doc = Inr figs \<and> f \<in> set figs"
  then obtain pages i where "figureFrom es (Suc i) (pages ! i) f"
    using extract_origin [of es doc figs f] by blast
  then obtain caption :: Line and ds where "captionRegex (l_text caption) = Some ds"
    "img_label f = figureLabel ds"
    unfolding figureFrom_def by blast
  then show "\<exists>digits. digits \<noteq> [] \<and> list_all isDigit digits \<and> img_label f = lit ''Figure '' @ digits"
    using captionRegex_digits by (auto simp: figureLabel_def)
next
  assume "captionRegex t = Some digits"
  then show "digits \<noteq> []" "list_all isDigit digits"
    using captionRegex_digits by blast+
next
  show "figureLabel digits = lit ''Figure '' @ digits"
    by (simp add: figureLabel_def)
next
  assume a: "v \<in> {lit ''Figure 1'', lit ''Fig. 1'', lit ''fig 1'', lit ''FIGURE.1''} \<and>
    (rest = [] \<or> \<not> isDigit (hd rest))"
  then show "captionRegex (v @ rest) = Some (lit ''1'')"
    using variants_match [of rest] by blast
next
  show "figureLabel (lit ''1'') = lit ''Figure 1''"
    by (simp add: figureLabel_def lit_def)
qed

theorem labels_normalized_witness:
  "extractImagesFromPdf keepOrder (Some [goodPage]) = Inr [figureOne 1] \<and>
   img_label (figureOne 1) = lit ''Figure 1'' \<and>
   captionRegex (lit ''fig 1'' @ lit '': setup'') = Some (lit ''1'') \<and>
   captionRegex (lit ''FIGURE.1'' @ []) = Some (lit ''1'') \<and>
   figureLabel (lit ''1'') = lit ''Figure 1'' \<and>
   captionRegex (lit ''Fig. 27 Map'') = Some (lit ''27'') \<and>
   list_all isDigit (lit ''27'') \<and> figureLabel (lit ''27'') = lit ''Figure '' @ lit ''27''"
proof -
  have e: "extractImagesFromPdf keepOrder (Some [goodPage]) = Inr [figureOne 1]"
    by (simp add: extractImagesFromPdf_def example_goodPage)
  have "\<exists>digits. digits \<noteq> [] \<and> list_all isDigit digits \<and>
          img_label (figureOne 1) = lit ''Figure '' @ digits"
    using labels_normalized [of keepOrder "Some [goodPage]" "[figureOne 1]" "figureOne 1"] e
    by simp
  then have l: "img_label (figureOne 1) = lit ''Figure 1''"
    by (simp add: figureOne_def)
  have n: "\<not> isDigit (hd (lit '': setup''))"
    by (simp add: lit_def isDigit_def)
  have a: "captionRegex (lit ''fig 1'' @ lit '': setup'') = Some (lit ''1'') \<and>
           figureLabel (lit ''1'') = lit ''Figure 1''"
    using labels_normalized [where v = "lit ''fig 1''" and rest = "lit '': setup''"] n
    by simp
  have b: "captionRegex (lit ''FIGURE.1'' @ []) = Some (lit ''1'')"
    using labels_normalized [where v = "lit ''FIGURE.1''" and rest = "[]"]
    by simp
  have m: "captionRegex (lit ''Fig. 27 Map'') = Some (lit ''27'')"
    by (simp add: regex_defs)
  have c: "list_all isDigit (lit ''27'') \<and> figureLabel (lit ''27'') = lit ''Figure '' @ lit ''27''"
    using labels_normalized [where t = "lit ''Fig. 27 Map''" and digits = "lit ''27''"] m
    by blast
  show ?thesis using e l a b m c by blast
qed

text \<open>
  Without the condition on the next character the label need not be \<open>Figure 1\<close>: the
  digits are taken greedily, and a line that begins with \<open>Figure 1\<close> and goes on with 2
  is labelled \<open>Figure 12\<close>.
\<close>

theorem label_longer_number:
  "lit ''Figure 12: loss'' = lit ''Figure 1'' @ lit ''2: loss'' \<and>
   captionRegex (lit ''Figure 12: loss'') = Some (lit ''12'') \<and>
   figureLabel (lit ''12'') = lit ''Figure 12'' \<and>
   lit ''Figure 12'' \<noteq> lit ''Figure 1''"
  by (simp add: regex_defs figureLabel_def)

end
